theory Spec2Isabelle
  imports Complex_Main "HOL-Library.Word" "HOL-Library.Finite_Map"
begin

section \<open>The order book of \<^verbatim>\<open>internal/engine/orderbook.go\<close>\<close>

text \<open>
  The embedding follows the Go source function by function.

  \<^item> \<^verbatim>\<open>float64\<close> values are modelled as \<open>real\<close>: the finite values. The three
    arithmetic operations of the file (\<^verbatim>\<open>+=\<close> and \<^verbatim>\<open>-=\<close> on a volume, \<^verbatim>\<open>-\<close> for the remaining
    quantity and for the spread) round their exact result to the nearest binary64 value,
    ties to even: \<open>fadd\<close> and \<open>fsub\<close>. Comparisons are exact. NaN and the infinities
    (what Go returns when a rounded result exceeds the largest finite value; \<open>round64\<close>
    has no such bound) are outside the model.
  \<^item> \<^verbatim>\<open>int64\<close> sequence numbers are \<open>64 word\<close>; \<open>sint\<close> reads the signed value and
    \<open>+\<close> wraps as Go's \<^verbatim>\<open>++\<close> does.
  \<^item> \<^verbatim>\<open>OrderSide\<close>, \<^verbatim>\<open>OrderType\<close> and \<^verbatim>\<open>OrderStatus\<close> are Go string types and stay strings.
  \<^item> \<^verbatim>\<open>time.Time\<close> is an integer time stamp; no function of the file reads it.
  \<^item> The mutex \<^verbatim>\<open>mu\<close> is left out: every method runs under the lock, so the model is the
    sequential behaviour of one call at a time.
  \<^item> Orders are held by value. The Go book stores \<^verbatim>\<open>*Order\<close> pointers in the index and in
    the levels; the only write to an order is the stamp in \<^verbatim>\<open>AddOrder\<close>, made before the
    pointer is stored, so values agree with pointers as long as each call of
    \<^verbatim>\<open>AddOrder\<close> is handed its own order object and callers leave stored orders alone.
\<close>

subsection \<open>\<^verbatim>\<open>float64\<close> arithmetic\<close>

text \<open>The nearest integer, a tie going to the even one.\<close>

definition round_even :: "real \<Rightarrow> int" where
  "round_even r =
     (let f = \<lfloor>r\<rfloor>; d = r - of_int f
      in if d < 1 / 2 then f else if 1 / 2 < d then f + 1 else if even f then f else f + 1)"

text \<open>
  Rounding to binary64: 53 significant bits, so the unit in the last place of \<open>x\<close> is
  \<open>2\<close> to the power \<open>\<lfloor>log\<^sub>2 \<bar>x\<bar>\<rfloor> - 52\<close>, and never below \<open>2\<close> to the power \<open>- 1074\<close>
  (the subnormal range).
\<close>

definition round64 :: "real \<Rightarrow> real" where
  "round64 x =
     (if x = 0 then 0
      else (let e = max (\<lfloor>log 2 \<bar>x\<bar>\<rfloor> - 52) (- 1074)
            in of_int (round_even (x / 2 powr of_int e)) * 2 powr of_int e))"

text \<open>
  The finite binary64 values: those that rounding leaves as they are, up to the largest
  finite one, \<open>(2^53 - 1) * 2^971\<close>. An operation whose exact result is such a value returns
  it.
\<close>

definition max_float64 :: real where
  "max_float64 = (2 ^ 53 - 1) * 2 ^ 971"

definition is_float64 :: "real \<Rightarrow> bool" where
  "is_float64 x = (round64 x = x \<and> \<bar>x\<bar> \<le> max_float64)"

definition fadd :: "real \<Rightarrow> real \<Rightarrow> real" where
  "fadd a b = round64 (a + b)"

definition fsub :: "real \<Rightarrow> real \<Rightarrow> real" where
  "fsub a b = round64 (a - b)"

subsection \<open>Orders and levels\<close>

type_synonym OrderSide = string
type_synonym OrderType = string
type_synonym OrderStatus = string

definition Buy :: OrderSide where "Buy = ''BUY''"
definition Sell :: OrderSide where "Sell = ''SELL''"

definition Limit :: OrderType where "Limit = ''LIMIT''"
definition Market :: OrderType where "Market = ''MARKET''"

definition Pending :: OrderStatus where "Pending = ''PENDING''"
definition Partial :: OrderStatus where "Partial = ''PARTIAL''"
definition Filled :: OrderStatus where "Filled = ''FILLED''"
definition Cancelled :: OrderStatus where "Cancelled = ''CANCELLED''"

record Order =
  ID :: string
  UserID :: string
  Symbol :: string
  Side :: OrderSide
  Type :: OrderType
  Price :: real
  Quantity :: real
  FilledQty :: real
  Status :: OrderStatus
  CreatedAt :: int
  UpdatedAt :: int
  SequenceNum :: "64 word"

text \<open>
  The fields of \<^verbatim>\<open>PriceLevel\<close> are \<^verbatim>\<open>Price\<close>, \<^verbatim>\<open>Orders\<close>, \<^verbatim>\<open>Volume\<close>; the first is
  named \<open>LevelPrice\<close> here because \<open>Price\<close> is the field of \<open>Order\<close>.
\<close>

record PriceLevel =
  LevelPrice :: real
  Orders :: "Order list"
  Volume :: real

subsection \<open>The red-black tree of the \<^verbatim>\<open>gods\<close> library\<close>

text \<open>
  The tree is an external library. It is modelled by what the book uses of it: a comparator
  and the entries in the order of an in-order traversal, which is the order the iterator
  visits and whose first entry is the node \<^verbatim>\<open>Left()\<close> returns. \<open>Get\<close>, \<open>Put\<close> and
  \<open>Remove\<close> find a key by the comparator, as the tree's search does.
\<close>

type_synonym Entry = "real \<times> PriceLevel"

record Tree =
  Comparator :: "real \<Rightarrow> real \<Rightarrow> int"
  Entries :: "Entry list"

definition NewWith :: "(real \<Rightarrow> real \<Rightarrow> int) \<Rightarrow> Tree" where
  "NewWith cmp = \<lparr>Comparator = cmp, Entries = []\<rparr>"

fun get_entries :: "(real \<Rightarrow> real \<Rightarrow> int) \<Rightarrow> real \<Rightarrow> Entry list \<Rightarrow> PriceLevel option" where
  "get_entries cmp k [] = None"
| "get_entries cmp k ((k', v) # es) =
     (if cmp k k' = 0 then Some v else get_entries cmp k es)"

fun put_entries :: "(real \<Rightarrow> real \<Rightarrow> int) \<Rightarrow> real \<Rightarrow> PriceLevel \<Rightarrow> Entry list \<Rightarrow> Entry list" where
  "put_entries cmp k v [] = [(k, v)]"
| "put_entries cmp k v ((k', v') # es) =
     (if cmp k k' = 0 then (k, v) # es
      else if cmp k k' < 0 then (k, v) # (k', v') # es
      else (k', v') # put_entries cmp k v es)"

fun remove_entries :: "(real \<Rightarrow> real \<Rightarrow> int) \<Rightarrow> real \<Rightarrow> Entry list \<Rightarrow> Entry list" where
  "remove_entries cmp k [] = []"
| "remove_entries cmp k ((k', v') # es) =
     (if cmp k k' = 0 then es else (k', v') # remove_entries cmp k es)"

text \<open>
  \<open>Get\<close> returns a \<^verbatim>\<open>*PriceLevel\<close> and the book then assigns to the fields of that level.
  \<open>store_entries\<close> is that assignment: it replaces the value of the node \<open>Get\<close> found.
\<close>

fun store_entries :: "(real \<Rightarrow> real \<Rightarrow> int) \<Rightarrow> real \<Rightarrow> PriceLevel \<Rightarrow> Entry list \<Rightarrow> Entry list" where
  "store_entries cmp k v [] = []"
| "store_entries cmp k v ((k', v') # es) =
     (if cmp k k' = 0 then (k', v) # es else (k', v') # store_entries cmp k v es)"

definition Get :: "Tree \<Rightarrow> real \<Rightarrow> PriceLevel option" where
  "Get t k = get_entries (Comparator t) k (Entries t)"

definition Put :: "Tree \<Rightarrow> real \<Rightarrow> PriceLevel \<Rightarrow> Tree" where
  "Put t k v = t\<lparr>Entries := put_entries (Comparator t) k v (Entries t)\<rparr>"

definition Remove :: "Tree \<Rightarrow> real \<Rightarrow> Tree" where
  "Remove t k = t\<lparr>Entries := remove_entries (Comparator t) k (Entries t)\<rparr>"

definition Store :: "Tree \<Rightarrow> real \<Rightarrow> PriceLevel \<Rightarrow> Tree" where
  "Store t k v = t\<lparr>Entries := store_entries (Comparator t) k v (Entries t)\<rparr>"

definition TreeSize :: "Tree \<Rightarrow> int" where
  "TreeSize t = int (length (Entries t))"

definition Left :: "Tree \<Rightarrow> Entry option" where
  "Left t = (case Entries t of [] \<Rightarrow> None | e # _ \<Rightarrow> Some e)"

subsection \<open>The book\<close>

text \<open>
  \<^verbatim>\<open>OrderBook.Symbol\<close> is named \<open>BookSymbol\<close> (\<open>Symbol\<close> is the field of \<open>Order\<close>).
  \<^verbatim>\<open>OrderMap\<close> is a Go map, hence a finite map.
\<close>

record OrderBook =
  BookSymbol :: string
  BuyTree :: Tree
  SellTree :: Tree
  OrderMap :: "(string, Order) fmap"
  sequence :: "64 word"

text \<open>The two comparator closures of \<^verbatim>\<open>NewOrderBook\<close>.\<close>

definition buyComparator :: "real \<Rightarrow> real \<Rightarrow> int" where
  "buyComparator priceA priceB =
     (if priceA > priceB then -1 else if priceA < priceB then 1 else 0)"

definition sellComparator :: "real \<Rightarrow> real \<Rightarrow> int" where
  "sellComparator priceA priceB =
     (if priceA < priceB then -1 else if priceA > priceB then 1 else 0)"

definition NewOrderBook :: "string \<Rightarrow> OrderBook" where
  "NewOrderBook symbol =
     \<lparr>BookSymbol = symbol,
      BuyTree = NewWith buyComparator,
      SellTree = NewWith sellComparator,
      OrderMap = fmempty,
      sequence = 0\<rparr>"

definition getTree :: "OrderBook \<Rightarrow> OrderSide \<Rightarrow> Tree" where
  "getTree ob side = (if side = Buy then BuyTree ob else SellTree ob)"

text \<open>\<open>getTree\<close> returns a pointer; \<open>setTree\<close> is a write through that pointer.\<close>

definition setTree :: "OrderBook \<Rightarrow> OrderSide \<Rightarrow> Tree \<Rightarrow> OrderBook" where
  "setTree ob side t = (if side = Buy then ob\<lparr>BuyTree := t\<rparr> else ob\<lparr>SellTree := t\<rparr>)"

text \<open>
  \<^verbatim>\<open>AddOrder\<close>: stamp the order, index it, get or create the level, append the order and
  add \<^verbatim>\<open>order.Quantity\<close> to the volume (a \<^verbatim>\<open>float64\<close> addition). The function has no result and no failing branch.
\<close>

definition AddOrder :: "OrderBook \<Rightarrow> Order \<Rightarrow> OrderBook" where
  "AddOrder ob order0 =
     (let ob1 = ob\<lparr>sequence := sequence ob + 1\<rparr>;
          order = order0\<lparr>SequenceNum := sequence ob1\<rparr>;
          ob2 = ob1\<lparr>OrderMap := fmupd (ID order) order (OrderMap ob1)\<rparr>;
          tree = getTree ob2 (Side order)
      in case Get tree (Price order) of
           Some level \<Rightarrow>
             setTree ob2 (Side order)
               (Store tree (Price order)
                  (level\<lparr>Orders := Orders level @ [order],
                         Volume := fadd (Volume level) (Quantity order)\<rparr>))
         | None \<Rightarrow>
             (let level = \<lparr>LevelPrice = Price order, Orders = [], Volume = 0\<rparr>
              in setTree ob2 (Side order)
                   (Put tree (Price order)
                      (level\<lparr>Orders := Orders level @ [order],
                             Volume := fadd (Volume level) (Quantity order)\<rparr>))))"

text \<open>
  The loop of \<^verbatim>\<open>RemoveOrder\<close> over \<^verbatim>\<open>level.Orders\<close>, with \<open>i\<close> the index and the
  list the orders from \<open>i\<close> on: at the first order whose \<^verbatim>\<open>ID\<close> is \<^verbatim>\<open>orderID\<close> it cuts
  position \<open>i\<close> out, subtracts \<^verbatim>\<open>remainingQty\<close> and breaks.
\<close>

fun remove_loop :: "string \<Rightarrow> real \<Rightarrow> nat \<Rightarrow> Order list \<Rightarrow> PriceLevel \<Rightarrow> PriceLevel" where
  "remove_loop orderID remainingQty i [] level = level"
| "remove_loop orderID remainingQty i (x # rest) level =
     (if ID x = orderID
      then level\<lparr>Orders := take i (Orders level) @ drop (i + 1) (Orders level),
                 Volume := fsub (Volume level) remainingQty\<rparr>
      else remove_loop orderID remainingQty (i + 1) rest level)"

definition RemoveOrder :: "OrderBook \<Rightarrow> string \<Rightarrow> Order option \<times> OrderBook" where
  "RemoveOrder ob orderID =
     (case fmlookup (OrderMap ob) orderID of
        None \<Rightarrow> (None, ob)
      | Some order \<Rightarrow>
          (let ob1 = ob\<lparr>OrderMap := fmdrop orderID (OrderMap ob)\<rparr>;
               tree = getTree ob1 (Side order)
           in case Get tree (Price order) of
                None \<Rightarrow> (Some order, ob1)
              | Some level0 \<Rightarrow>
                  (let remainingQty = fsub (Quantity order) (FilledQty order);
                       level = remove_loop orderID remainingQty 0 (Orders level0) level0;
                       tree1 = Store tree (Price order) level
                   in if length (Orders level) = 0
                      then (Some order, setTree ob1 (Side order) (Remove tree1 (Price order)))
                      else (Some order, setTree ob1 (Side order) tree1))))"

text \<open>
  \<^verbatim>\<open>GetBestBid\<close> and \<^verbatim>\<open>GetBestAsk\<close>: \<open>None\<close> stands for the nil dereference of
  \<^verbatim>\<open>node.Key\<close> that would follow a nil \<^verbatim>\<open>Left()\<close>.
\<close>

definition GetBestBid :: "OrderBook \<Rightarrow> (real \<times> bool) option" where
  "GetBestBid ob =
     (if TreeSize (BuyTree ob) = 0 then Some (0, False)
      else case Left (BuyTree ob) of None \<Rightarrow> None | Some node \<Rightarrow> Some (fst node, True))"

definition GetBestAsk :: "OrderBook \<Rightarrow> (real \<times> bool) option" where
  "GetBestAsk ob =
     (if TreeSize (SellTree ob) = 0 then Some (0, False)
      else case Left (SellTree ob) of None \<Rightarrow> None | Some node \<Rightarrow> Some (fst node, True))"

definition GetSpread :: "OrderBook \<Rightarrow> real option" where
  "GetSpread ob =
     (case GetBestBid ob of
        None \<Rightarrow> None
      | Some (bid, hasBid) \<Rightarrow>
          (case GetBestAsk ob of
             None \<Rightarrow> None
           | Some (ask, hasAsk) \<Rightarrow>
               if \<not> hasBid \<or> \<not> hasAsk then Some 0 else Some (fsub ask bid)))"

text \<open>
  The two loops of \<^verbatim>\<open>GetDepth\<close>: \<^verbatim>\<open>for it.Next() && count < levels\<close> over the iterator,
  appending a copy of each level.
\<close>

fun depth_loop :: "Entry list \<Rightarrow> int \<Rightarrow> int \<Rightarrow> PriceLevel list \<Rightarrow> PriceLevel list" where
  "depth_loop [] count levels acc = acc"
| "depth_loop ((k, level) # es) count levels acc =
     (if count < levels then depth_loop es (count + 1) levels (acc @ [level]) else acc)"

text \<open>
  \<^verbatim>\<open>make([]PriceLevel, 0, levels)\<close> panics on a negative capacity: \<open>None\<close>. Allocation
  is taken to succeed otherwise.
\<close>

definition GetDepth :: "OrderBook \<Rightarrow> int \<Rightarrow> (PriceLevel list \<times> PriceLevel list) option" where
  "GetDepth ob levels =
     (if levels < 0 then None
      else Some (depth_loop (Entries (BuyTree ob)) 0 levels [],
                 depth_loop (Entries (SellTree ob)) 0 levels []))"

definition GetOrder :: "OrderBook \<Rightarrow> string \<Rightarrow> Order option \<times> bool" where
  "GetOrder ob orderID =
     (case fmlookup (OrderMap ob) orderID of
        None \<Rightarrow> (None, False)
      | Some order \<Rightarrow> (Some order, True))"

definition Size :: "OrderBook \<Rightarrow> int" where
  "Size ob = int (fcard (fmdom (OrderMap ob)))"

subsection \<open>Runs of calls\<close>

text \<open>
  A reachable book is what a sequence of \<open>AddOrder\<close> and \<open>RemoveOrder\<close> calls leaves,
  starting from \<open>NewOrderBook\<close>.
\<close>

datatype Call = CallAddOrder Order | CallRemoveOrder string

fun call :: "OrderBook \<Rightarrow> Call \<Rightarrow> OrderBook" where
  "call ob (CallAddOrder order) = AddOrder ob order"
| "call ob (CallRemoveOrder orderID) = snd (RemoveOrder ob orderID)"

fun run :: "OrderBook \<Rightarrow> Call list \<Rightarrow> OrderBook" where
  "run ob [] = ob"
| "run ob (c # cs) = run (call ob c) cs"

subsection \<open>Properties of a book\<close>

text \<open>The levels of a side, in the order its iterator visits them.\<close>

definition bidLevels :: "OrderBook \<Rightarrow> PriceLevel list" where
  "bidLevels ob = map snd (Entries (BuyTree ob))"

definition askLevels :: "OrderBook \<Rightarrow> PriceLevel list" where
  "askLevels ob = map snd (Entries (SellTree ob))"

text \<open>No level of either tree has an empty order sequence.\<close>

definition no_empty_level :: "OrderBook \<Rightarrow> bool" where
  "no_empty_level ob = list_all (\<lambda>level. Orders level \<noteq> []) (bidLevels ob @ askLevels ob)"

text \<open>
  The keys of the buy tree descend and the keys of the sell tree ascend along the
  iterator: what a search tree built with the comparators of \<open>NewOrderBook\<close> maintains.
\<close>

definition trees_sorted :: "OrderBook \<Rightarrow> bool" where
  "trees_sorted ob =
     (sorted_wrt (>) (map fst (Entries (BuyTree ob))) \<and>
      sorted_wrt (<) (map fst (Entries (SellTree ob))))"

text \<open>Every level is stored under its own price.\<close>

definition levels_keyed :: "OrderBook \<Rightarrow> bool" where
  "levels_keyed ob =
     list_all (\<lambda>e. LevelPrice (snd e) = fst e) (Entries (BuyTree ob) @ Entries (SellTree ob))"

text \<open>
  An identifier is live when it is indexed and the indexed order rests in the level at its
  price in the tree of its side.
\<close>

definition live :: "OrderBook \<Rightarrow> string \<Rightarrow> bool" where
  "live ob orderID =
     (case fmlookup (OrderMap ob) orderID of
        None \<Rightarrow> False
      | Some order \<Rightarrow>
          (case Get (getTree ob (Side order)) (Price order) of
             None \<Rightarrow> False
           | Some level \<Rightarrow> order \<in> set (Orders level)))"

text \<open>
  The sequence numbers a run hands out: for each \<open>AddOrder\<close> call, in order, the
  \<^verbatim>\<open>SequenceNum\<close> of the order as it stands in the index right after the call.
\<close>

fun stamps :: "OrderBook \<Rightarrow> Call list \<Rightarrow> 64 word list" where
  "stamps ob [] = []"
| "stamps ob (CallAddOrder order # cs) =
     (case fmlookup (OrderMap (AddOrder ob order)) (ID order) of
        None \<Rightarrow> []
      | Some accepted \<Rightarrow> [SequenceNum accepted]) @ stamps (AddOrder ob order) cs"
| "stamps ob (CallRemoveOrder orderID # cs) = stamps (snd (RemoveOrder ob orderID)) cs"

text \<open>The number of \<open>AddOrder\<close> calls in a run.\<close>

fun adds :: "Call list \<Rightarrow> nat" where
  "adds [] = 0"
| "adds (CallAddOrder order # cs) = Suc (adds cs)"
| "adds (CallRemoveOrder orderID # cs) = adds cs"

text \<open>The residual of an order: its quantity minus its filled quantity.\<close>

definition residual :: "Order \<Rightarrow> real" where
  "residual order = Quantity order - FilledQty order"

text \<open>Every level's volume is the sum of the residuals of its orders.\<close>

definition volume_ok :: "OrderBook \<Rightarrow> bool" where
  "volume_ok ob =
     list_all (\<lambda>level. Volume level = sum_list (map residual (Orders level)))
       (bidLevels ob @ askLevels ob)"

text \<open>
  A run in which every order handed to \<open>AddOrder\<close> is unfilled and carries an identifier
  that is not in the index at the time of the call.
\<close>

fun fresh_unfilled :: "OrderBook \<Rightarrow> Call list \<Rightarrow> bool" where
  "fresh_unfilled ob [] = True"
| "fresh_unfilled ob (CallAddOrder order # cs) =
     (FilledQty order = 0 \<and> fmlookup (OrderMap ob) (ID order) = None \<and>
      fresh_unfilled (AddOrder ob order) cs)"
| "fresh_unfilled ob (CallRemoveOrder orderID # cs) =
     fresh_unfilled (snd (RemoveOrder ob orderID)) cs"

text \<open>
  A run in which no addition to and no subtraction from a level's volume rounds or
  overflows: the exact sum or difference is a finite binary64 value each time, and so is
  the remaining quantity \<^verbatim>\<open>order.Quantity - order.FilledQty\<close> that \<open>RemoveOrder\<close> computes.
\<close>

fun exact_volumes :: "OrderBook \<Rightarrow> Call list \<Rightarrow> bool" where
  "exact_volumes ob [] = True"
| "exact_volumes ob (CallAddOrder order # cs) =
     (is_float64
        ((case Get (getTree ob (Side order)) (Price order) of
            None \<Rightarrow> 0
          | Some level \<Rightarrow> Volume level) + Quantity order) \<and>
      exact_volumes (AddOrder ob order) cs)"
| "exact_volumes ob (CallRemoveOrder orderID # cs) =
     ((case fmlookup (OrderMap ob) orderID of
         None \<Rightarrow> True
       | Some order \<Rightarrow>
           (case Get (getTree ob (Side order)) (Price order) of
              None \<Rightarrow> True
            | Some level \<Rightarrow>
                is_float64 (Quantity order - FilledQty order) \<and>
                is_float64 (Volume level - (Quantity order - FilledQty order)))) \<and>
      exact_volumes (snd (RemoveOrder ob orderID)) cs)"

subsection \<open>Concrete inputs\<close>

text \<open>An order with the given identifier, side, price, quantity and filled quantity.\<close>

definition exampleOrder :: "string \<Rightarrow> OrderSide \<Rightarrow> real \<Rightarrow> real \<Rightarrow> real \<Rightarrow> Order" where
  "exampleOrder i s p q f =
     \<lparr>ID = i, UserID = ''u1'', Symbol = ''BTC-USD'', Side = s, Type = Limit, Price = p,
      Quantity = q, FilledQty = f, Status = Pending, CreatedAt = 0, UpdatedAt = 0,
      SequenceNum = 0\<rparr>"

subsection \<open>Auxiliary definitions\<close>

text \<open>
  What \<open>AddOrder\<close> and \<open>RemoveOrder\<close> do to the tree of the order's side, and the
  order as \<open>AddOrder\<close> stamps it.
\<close>

definition stamped :: "OrderBook \<Rightarrow> Order \<Rightarrow> Order" where
  "stamped ob order = order\<lparr>SequenceNum := sequence ob + 1\<rparr>"

definition tree_add :: "Tree \<Rightarrow> Order \<Rightarrow> Tree" where
  "tree_add t order =
     (case Get t (Price order) of
        Some level \<Rightarrow>
          Store t (Price order)
            (level\<lparr>Orders := Orders level @ [order],
                   Volume := fadd (Volume level) (Quantity order)\<rparr>)
      | None \<Rightarrow>
          Put t (Price order)
            \<lparr>LevelPrice = Price order, Orders = [order], Volume = fadd 0 (Quantity order)\<rparr>)"

definition tree_cut :: "Tree \<Rightarrow> Order \<Rightarrow> string \<Rightarrow> Tree" where
  "tree_cut t order orderID =
     (case Get t (Price order) of
        None \<Rightarrow> t
      | Some level0 \<Rightarrow>
          (let level = remove_loop orderID (fsub (Quantity order) (FilledQty order)) 0
                         (Orders level0) level0
           in if Orders level = [] then Remove t (Price order)
              else Store t (Price order) level))"

definition book_inv :: "OrderBook \<Rightarrow> bool" where
  "book_inv ob =
     (Comparator (BuyTree ob) = buyComparator \<and> Comparator (SellTree ob) = sellComparator \<and>
      trees_sorted ob \<and> levels_keyed ob \<and> no_empty_level ob)"

text \<open>
  The invariant behind the volume property: in the tree of one side (\<open>isBuy\<close> tells
  which), with \<open>m\<close> the index, every level has the volume of its residuals, holds no
  identifier twice, and every order in it has the level's price, the tree's side and is the
  order the index holds under its identifier.
\<close>

definition level_ok :: "(string, Order) fmap \<Rightarrow> bool \<Rightarrow> Entry \<Rightarrow> bool" where
  "level_ok m isBuy e =
     (Volume (snd e) = sum_list (map residual (Orders (snd e))) \<and>
      distinct (map ID (Orders (snd e))) \<and>
      list_all (\<lambda>x. Price x = fst e \<and> (Side x = Buy) = isBuy \<and> fmlookup m (ID x) = Some x)
        (Orders (snd e)))"

definition tree_ok :: "(string, Order) fmap \<Rightarrow> bool \<Rightarrow> Tree \<Rightarrow> bool" where
  "tree_ok m isBuy t = list_all (level_ok m isBuy) (Entries t)"

definition book_consistent :: "OrderBook \<Rightarrow> bool" where
  "book_consistent ob =
     (book_inv ob \<and> tree_ok (OrderMap ob) True (BuyTree ob) \<and>
      tree_ok (OrderMap ob) False (SellTree ob))"

section \<open>Rounding\<close>

text \<open>
  Whole numbers up to \<open>2^53\<close> in magnitude are binary64 values, so rounding leaves them as
  they are; \<open>2^53 + 1\<close> is not one and rounds to \<open>2^53\<close>.
\<close>

lemma round_even_of_int [simp]: "round_even (of_int k) = k"
  by (simp add: round_even_def)

lemma round_at_exact:
  assumes "x = of_int m * 2 powr of_int e"
  shows "of_int (round_even (x / 2 powr of_int e)) * 2 powr of_int e = x"
proof -
  have "x / 2 powr of_int e = of_int m" using assms by simp
  then show ?thesis using assms by simp
qed

lemma floor_log2_bounds:
  assumes "1 \<le> x" and "x \<le> 2 ^ 53"
  shows "0 \<le> \<lfloor>log 2 x\<rfloor>" and "\<lfloor>log 2 x\<rfloor> \<le> 53"
proof -
  have "0 \<le> log 2 x" using assms(1) by simp
  then show "0 \<le> \<lfloor>log 2 x\<rfloor>" by simp
  have "x \<le> 2 powr 53" using assms(2) by simp
  then have "log 2 x \<le> 53" using assms(1) by (simp add: log_le_iff)
  then show "\<lfloor>log 2 x\<rfloor> \<le> 53" by (simp add: floor_le_iff)
qed

lemma floor_log2_53:
  assumes "1 \<le> x" and "x \<le> 2 ^ 53" and "\<lfloor>log 2 x\<rfloor> = 53"
  shows "x = 2 ^ 53"
proof -
  have "53 \<le> log 2 x" using assms(3) by linarith
  then have "2 powr 53 \<le> x" using assms(1) by (simp add: le_log_iff)
  then have "2 ^ 53 \<le> x" by simp
  with assms(2) show ?thesis by simp
qed

lemma round64_of_int:
  assumes "\<bar>n\<bar> \<le> 2 ^ 53"
  shows "round64 (of_int n) = of_int n"
proof (cases "n = 0")
  case True
  then show ?thesis by (simp add: round64_def)
next
  case False
  define x :: real where "x = \<bar>of_int n\<bar>"
  have xn: "x = of_int \<bar>n\<bar>" by (simp add: x_def)
  have "1 \<le> \<bar>n\<bar>" using False by simp
  then have x1: "1 \<le> x" unfolding xn by (simp only: of_int_1_le_iff)
  have "(of_int \<bar>n\<bar> :: real) \<le> of_int (2 ^ 53)" using assms by (simp only: of_int_le_iff)
  then have x2: "x \<le> 2 ^ 53" unfolding xn by simp
  note x = x1 x2
  define E where "E = \<lfloor>log 2 x\<rfloor>"
  have E: "0 \<le> E" "E \<le> 53" using floor_log2_bounds [OF x] by (simp_all add: E_def)
  define e where "e = max (E - 52) (- 1074)"
  have e: "e = E - 52" using E by (simp add: e_def)
  have "\<exists>m. (of_int n :: real) = of_int m * 2 powr of_int e"
  proof (cases "E = 53")
    case True
    then have "x = 2 ^ 53" using floor_log2_53 [OF x] by (simp add: E_def)
    then have "(of_int \<bar>n\<bar> :: real) = of_int (2 ^ 53)" unfolding xn by simp
    then have "\<bar>n\<bar> = 2 ^ 53" by (simp only: of_int_eq_iff)
    then have "n = 2 ^ 53 \<or> n = - (2 ^ 53)" by linarith
    moreover have "2 powr of_int e = (2::real)" using True e by simp
    ultimately show ?thesis
      by (auto intro: exI [of _ "2 ^ 52"] exI [of _ "- (2 ^ 52)"])
  next
    case False
    with E have le: "E \<le> 52" by simp
    have "(2::real) powr of_int e = (if 0 \<le> e then 2 ^ nat e else inverse (2 ^ nat (- e)))"
      by (rule powr_real_of_int) simp
    moreover have "e \<le> 0" and "nat (- e) = nat (52 - E)" using le e by simp_all
    ultimately have "2 powr of_int e = inverse ((2::real) ^ nat (52 - E))"
      by (cases "e = 0") auto
    then have "(of_int n :: real) = of_int (n * 2 ^ nat (52 - E)) * 2 powr of_int e"
      by simp
    then show ?thesis by blast
  qed
  then obtain m where m: "(of_int n :: real) = of_int m * 2 powr of_int e" by blast
  have "round64 (of_int n) =
          of_int (round_even (of_int n / 2 powr of_int e)) * 2 powr of_int e"
    using False by (simp add: round64_def e_def E_def x_def Let_def)
  also have "\<dots> = of_int n" using m by (rule round_at_exact)
  finally show ?thesis .
qed

lemma round64_numeral [simp]:
  "(numeral k :: real) \<le> 9007199254740992 \<Longrightarrow> round64 (numeral k) = numeral k"
proof -
  assume "(numeral k :: real) \<le> 9007199254740992"
  then have "(of_int (numeral k) :: real) \<le> of_int 9007199254740992" by simp
  then have "(numeral k :: int) \<le> 9007199254740992" by (simp only: of_int_le_iff)
  then have "\<bar>numeral k :: int\<bar> \<le> 2 ^ 53" by simp
  then have "round64 (of_int (numeral k)) = of_int (numeral k)" by (rule round64_of_int)
  then show ?thesis by simp
qed

lemma round64_0 [simp]: "round64 0 = 0"
  by (simp add: round64_def)

lemma round64_1 [simp]: "round64 1 = 1"
  using round64_of_int [of 1] by simp

lemma floor_log2_bracket:
  assumes "2 ^ n \<le> x" and "x < 2 ^ Suc n"
  shows "\<lfloor>log 2 x\<rfloor> = int n"
proof -
  have pos: "0 < x" using assms(1) by (smt (verit) zero_less_power)
  have "real n \<le> log 2 x" using assms(1) pos by (simp add: le_log_iff powr_realpow)
  moreover have "log 2 x < real n + 1"
    using assms(2) pos by (simp add: log_less_iff powr_realpow powr_add)
  ultimately show ?thesis by linarith
qed

lemma round64_tie: "round64 9007199254740993 = 9007199254740992"
proof -
  have "\<lfloor>log 2 (9007199254740993::real)\<rfloor> = int 53"
    by (rule floor_log2_bracket) simp_all
  then show ?thesis
    by (simp add: round64_def round_even_def Let_def)
qed

lemma is_float64_of_int:
  assumes "\<bar>n\<bar> \<le> 2 ^ 53"
  shows "is_float64 (of_int n)"
proof -
  have "(of_int \<bar>n\<bar> :: real) \<le> of_int (2 ^ 53)" using assms by (simp only: of_int_le_iff)
  then have "\<bar>of_int n :: real\<bar> \<le> 2 ^ 53" by simp
  also have "(2::real) ^ 53 \<le> max_float64" by (simp add: max_float64_def)
  finally show ?thesis using round64_of_int [OF assms] by (simp add: is_float64_def)
qed

lemma is_float64_numeral [simp]:
  "(numeral k :: real) \<le> 9007199254740992 \<Longrightarrow> is_float64 (numeral k)"
proof -
  assume "(numeral k :: real) \<le> 9007199254740992"
  then have "(of_int (numeral k) :: real) \<le> of_int 9007199254740992" by simp
  then have "(numeral k :: int) \<le> 9007199254740992" by (simp only: of_int_le_iff)
  then have "\<bar>numeral k :: int\<bar> \<le> 2 ^ 53" by simp
  then have "is_float64 (of_int (numeral k))" by (rule is_float64_of_int)
  then show ?thesis by simp
qed

lemma is_float64_0 [simp]: "is_float64 0"
  using is_float64_of_int [of 0] by simp

lemma is_float64_1 [simp]: "is_float64 1"
  using is_float64_of_int [of 1] by simp

lemma fadd_exact: "is_float64 (a + b) \<Longrightarrow> fadd a b = a + b"
  by (simp add: fadd_def is_float64_def)

lemma fsub_exact: "is_float64 (a - b) \<Longrightarrow> fsub a b = a - b"
  by (simp add: fsub_def is_float64_def)

section \<open>Evaluation\<close>

lemmas book_eval =
  exampleOrder_def NewOrderBook_def NewWith_def AddOrder_def RemoveOrder_def getTree_def
  setTree_def Get_def Put_def Store_def Remove_def Buy_def Sell_def buyComparator_def
  sellComparator_def Let_def Limit_def Pending_def Size_def GetBestBid_def GetBestAsk_def
  GetSpread_def TreeSize_def Left_def GetDepth_def fadd_def fsub_def

section \<open>The trees under the calls\<close>

lemma store_keys [simp]: "map fst (store_entries c k v es) = map fst es"
  by (induction es) auto

lemma remove_store [simp]: "remove_entries c k (store_entries c k v es) = remove_entries c k es"
  by (induction es) auto

lemma Remove_Store [simp]: "Remove (Store t k v) k = Remove t k"
  by (simp add: Remove_def Store_def)

lemma AddOrder_BuyTree:
  "BuyTree (AddOrder ob order) =
     (if Side order = Buy then tree_add (BuyTree ob) (stamped ob order) else BuyTree ob)"
  by (simp add: AddOrder_def Let_def getTree_def setTree_def tree_add_def stamped_def
      split: option.splits)

lemma AddOrder_SellTree:
  "SellTree (AddOrder ob order) =
     (if Side order = Buy then SellTree ob else tree_add (SellTree ob) (stamped ob order))"
  by (simp add: AddOrder_def Let_def getTree_def setTree_def tree_add_def stamped_def
      split: option.splits)

lemma AddOrder_OrderMap:
  "OrderMap (AddOrder ob order) = fmupd (ID order) (stamped ob order) (OrderMap ob)"
  by (simp add: AddOrder_def Let_def getTree_def setTree_def stamped_def split: option.splits)

lemma AddOrder_sequence: "sequence (AddOrder ob order) = sequence ob + 1"
  by (simp add: AddOrder_def Let_def getTree_def setTree_def split: option.splits)

lemma RemoveOrder_None:
  "fmlookup (OrderMap ob) orderID = None \<Longrightarrow> RemoveOrder ob orderID = (None, ob)"
  by (simp add: RemoveOrder_def)


lemma RemoveOrder_BuyTree:
  "fmlookup (OrderMap ob) orderID = Some order \<Longrightarrow>
   BuyTree (snd (RemoveOrder ob orderID)) =
     (if Side order = Buy then tree_cut (BuyTree ob) order orderID else BuyTree ob)"
  by (simp add: RemoveOrder_def Let_def getTree_def setTree_def tree_cut_def split: option.splits)

lemma RemoveOrder_SellTree:
  "fmlookup (OrderMap ob) orderID = Some order \<Longrightarrow>
   SellTree (snd (RemoveOrder ob orderID)) =
     (if Side order = Buy then SellTree ob else tree_cut (SellTree ob) order orderID)"
  by (simp add: RemoveOrder_def Let_def getTree_def setTree_def tree_cut_def split: option.splits)

lemma RemoveOrder_OrderMap:
  "OrderMap (snd (RemoveOrder ob orderID)) = fmdrop orderID (OrderMap ob)"
  by (simp add: RemoveOrder_def Let_def getTree_def setTree_def fmdrop_idle fmdom_notI split: option.splits)

lemma RemoveOrder_sequence: "sequence (snd (RemoveOrder ob orderID)) = sequence ob"
  by (simp add: RemoveOrder_def Let_def getTree_def setTree_def split: option.splits)

lemma put_all:
  "list_all Q es \<Longrightarrow> Q (k, v) \<Longrightarrow> list_all Q (put_entries c k v es)"
  by (induction es) auto

lemma remove_all: "list_all Q es \<Longrightarrow> list_all Q (remove_entries c k es)"
  by (induction es) auto

lemma store_all:
  "list_all Q es \<Longrightarrow> get_entries c k es = Some l \<Longrightarrow> (\<And>k'. Q (k', l) \<Longrightarrow> Q (k', v)) \<Longrightarrow>
   list_all Q (store_entries c k v es)"
  by (induction es) (auto split: if_splits)

lemma remove_loop_LevelPrice [simp]:
  "LevelPrice (remove_loop orderID q i xs level) = LevelPrice level"
  by (induction xs arbitrary: i) auto

lemma tree_add_Comparator [simp]: "Comparator (tree_add t order) = Comparator t"
  by (simp add: tree_add_def Store_def Put_def split: option.splits)

lemma tree_cut_Comparator [simp]: "Comparator (tree_cut t order orderID) = Comparator t"
  by (simp add: tree_cut_def Store_def Remove_def Let_def split: option.splits)

lemma tree_add_all:
  assumes "list_all Q (Entries t)"
    and "\<And>k l. Q (k, l) \<Longrightarrow>
           Q (k, l\<lparr>Orders := Orders l @ [order], Volume := fadd (Volume l) (Quantity order)\<rparr>)"
    and "Q (Price order, \<lparr>LevelPrice = Price order, Orders = [order], Volume = fadd 0 (Quantity order)\<rparr>)"
  shows "list_all Q (Entries (tree_add t order))"
proof (cases "Get t (Price order)")
  case None
  then show ?thesis using assms(1,3) by (simp add: tree_add_def Put_def put_all)
next
  case (Some level)
  then have "get_entries (Comparator t) (Price order) (Entries t) = Some level"
    by (simp add: Get_def)
  then have "list_all Q (store_entries (Comparator t) (Price order)
      (level\<lparr>Orders := Orders level @ [order], Volume := fadd (Volume level) (Quantity order)\<rparr>)
      (Entries t))"
    by (rule store_all [OF assms(1)]) (rule assms(2))
  with Some show ?thesis by (simp add: tree_add_def Store_def)
qed

lemma tree_cut_all:
  assumes "list_all Q (Entries t)"
    and "\<And>k l l'. Q (k, l) \<Longrightarrow> Orders l' \<noteq> [] \<Longrightarrow> LevelPrice l' = LevelPrice l \<Longrightarrow> Q (k, l')"
  shows "list_all Q (Entries (tree_cut t order orderID))"
proof (cases "Get t (Price order)")
  case None
  then show ?thesis using assms(1) by (simp add: tree_cut_def)
next
  case (Some level0)
  define level where
    "level = remove_loop orderID (fsub (Quantity order) (FilledQty order)) 0 (Orders level0) level0"
  show ?thesis
  proof (cases "Orders level = []")
    case True
    with Some show ?thesis
      using assms(1) by (simp add: tree_cut_def level_def Remove_def remove_all)
  next
    case False
    have g: "get_entries (Comparator t) (Price order) (Entries t) = Some level0"
      using Some by (simp add: Get_def)
    have "list_all Q (store_entries (Comparator t) (Price order) level (Entries t))"
    proof (rule store_all [OF assms(1) g])
      fix k' assume "Q (k', level0)"
      then show "Q (k', level)" using False by (rule assms(2)) (simp add: level_def)
    qed
    with Some False show ?thesis by (simp add: tree_cut_def level_def Store_def)
  qed
qed

lemma put_keys: "fst ` set (put_entries c k v es) \<subseteq> insert k (fst ` set es)"
proof (induction es)
  case Nil
  then show ?case by simp
next
  case (Cons e es)
  then show ?case by (cases e) (force split: if_splits)
qed

lemma put_sorted:
  assumes lt: "\<And>a b. (c a b < 0) = R a b"
    and eq: "\<And>a b. (c a b = 0) = (a = b)"
    and gt: "\<And>a b. (0 < c a b) = R b a"
    and tr: "\<And>x y z. R x y \<Longrightarrow> R y z \<Longrightarrow> R x z"
  shows "sorted_wrt R (map fst es) \<Longrightarrow> sorted_wrt R (map fst (put_entries c k v es))"
proof (induction es)
  case Nil
  then show ?case by simp
next
  case (Cons e es)
  obtain k' v' where e: "e = (k', v')" by (cases e)
  from Cons.prems e have below: "\<forall>x \<in> fst ` set es. R k' x" and rest: "sorted_wrt R (map fst es)"
    by auto
  consider "c k k' = 0" | "c k k' < 0" | "0 < c k k'" by linarith
  then show ?case
  proof cases
    case 1
    then have "k = k'" by (simp add: eq)
    with 1 e below rest show ?thesis by simp
  next
    case 2
    then have r: "R k k'" by (simp add: lt)
    then have "\<forall>x \<in> fst ` set es. R k x" using below tr by blast
    with 2 e r below rest show ?thesis by simp
  next
    case 3
    then have r: "R k' k" by (simp add: gt)
    have "\<forall>x \<in> fst ` set (put_entries c k v es). R k' x"
      using put_keys [of c k v es] below r by blast
    with 3 e Cons.IH [OF rest] show ?thesis by simp
  qed
qed

lemma put_sorted_buy:
  "sorted_wrt (>) (map fst es) \<Longrightarrow> sorted_wrt (>) (map fst (put_entries buyComparator k v es))"
  by (rule put_sorted [where R = "(>)"]) (auto simp: buyComparator_def)

lemma put_sorted_sell:
  "sorted_wrt (<) (map fst es) \<Longrightarrow> sorted_wrt (<) (map fst (put_entries sellComparator k v es))"
  by (rule put_sorted [where R = "(<)"]) (auto simp: sellComparator_def)

lemma remove_subset: "set (remove_entries c k es) \<subseteq> set es"
  by (induction es) (auto split: if_splits)

lemma remove_sorted:
  "sorted_wrt R (map fst es) \<Longrightarrow> sorted_wrt R (map fst (remove_entries c k es))"
proof (induction es)
  case Nil
  then show ?case by simp
next
  case (Cons e es)
  then show ?case using remove_subset [of c k es] by (cases e) auto
qed

lemma tree_add_sorted_buy:
  "Comparator t = buyComparator \<Longrightarrow> sorted_wrt (>) (map fst (Entries t)) \<Longrightarrow>
   sorted_wrt (>) (map fst (Entries (tree_add t order)))"
  by (simp add: tree_add_def Store_def Put_def put_sorted_buy split: option.splits)

lemma tree_add_sorted_sell:
  "Comparator t = sellComparator \<Longrightarrow> sorted_wrt (<) (map fst (Entries t)) \<Longrightarrow>
   sorted_wrt (<) (map fst (Entries (tree_add t order)))"
  by (simp add: tree_add_def Store_def Put_def put_sorted_sell split: option.splits)

lemma tree_cut_sorted:
  "sorted_wrt R (map fst (Entries t)) \<Longrightarrow>
   sorted_wrt R (map fst (Entries (tree_cut t order orderID)))"
  by (simp add: tree_cut_def Store_def Remove_def Let_def remove_sorted split: option.splits)

lemma NewOrderBook_inv: "book_inv (NewOrderBook symbol)"
  by (simp add: book_inv_def NewOrderBook_def NewWith_def trees_sorted_def levels_keyed_def
      no_empty_level_def bidLevels_def askLevels_def)

lemma no_empty_level_entries:
  "no_empty_level ob =
     (list_all (\<lambda>e. Orders (snd e) \<noteq> []) (Entries (BuyTree ob)) \<and>
      list_all (\<lambda>e. Orders (snd e) \<noteq> []) (Entries (SellTree ob)))"
  by (auto simp: no_empty_level_def bidLevels_def askLevels_def list_all_iff)

lemma levels_keyed_entries:
  "levels_keyed ob =
     (list_all (\<lambda>e. LevelPrice (snd e) = fst e) (Entries (BuyTree ob)) \<and>
      list_all (\<lambda>e. LevelPrice (snd e) = fst e) (Entries (SellTree ob)))"
  by (simp add: levels_keyed_def)

lemma tree_add_keyed:
  "list_all (\<lambda>e. LevelPrice (snd e) = fst e) (Entries t) \<Longrightarrow>
   list_all (\<lambda>e. LevelPrice (snd e) = fst e) (Entries (tree_add t order))"
  by (rule tree_add_all) simp_all

lemma tree_add_nonempty:
  "list_all (\<lambda>e. Orders (snd e) \<noteq> []) (Entries t) \<Longrightarrow>
   list_all (\<lambda>e. Orders (snd e) \<noteq> []) (Entries (tree_add t order))"
  by (rule tree_add_all) simp_all

lemma tree_cut_keyed:
  "list_all (\<lambda>e. LevelPrice (snd e) = fst e) (Entries t) \<Longrightarrow>
   list_all (\<lambda>e. LevelPrice (snd e) = fst e) (Entries (tree_cut t order orderID))"
  by (rule tree_cut_all) simp_all

lemma tree_cut_nonempty:
  "list_all (\<lambda>e. Orders (snd e) \<noteq> []) (Entries t) \<Longrightarrow>
   list_all (\<lambda>e. Orders (snd e) \<noteq> []) (Entries (tree_cut t order orderID))"
  by (rule tree_cut_all) simp_all

lemma AddOrder_inv: "book_inv ob \<Longrightarrow> book_inv (AddOrder ob order)"
  unfolding book_inv_def trees_sorted_def levels_keyed_entries no_empty_level_entries
  by (simp add: AddOrder_BuyTree AddOrder_SellTree tree_add_sorted_buy tree_add_sorted_sell
      tree_add_keyed tree_add_nonempty)

lemma RemoveOrder_inv: "book_inv ob \<Longrightarrow> book_inv (snd (RemoveOrder ob orderID))"
proof (cases "fmlookup (OrderMap ob) orderID")
  case None
  assume "book_inv ob"
  with None show ?thesis by (simp add: RemoveOrder_None)
next
  case (Some order)
  assume "book_inv ob"
  then show ?thesis
    unfolding book_inv_def trees_sorted_def levels_keyed_entries no_empty_level_entries
    by (simp add: RemoveOrder_BuyTree [OF Some] RemoveOrder_SellTree [OF Some]
        tree_cut_sorted tree_cut_keyed tree_cut_nonempty)
qed

lemma call_inv: "book_inv ob \<Longrightarrow> book_inv (call ob c)"
  by (cases c) (simp_all add: AddOrder_inv RemoveOrder_inv)

lemma run_inv: "book_inv ob \<Longrightarrow> book_inv (run ob calls)"
  by (induction calls arbitrary: ob) (simp_all add: call_inv)

text \<open>Every reachable book has sorted trees, levels under their own prices and no empty level.\<close>

lemma reachable_book_inv: "book_inv (run (NewOrderBook symbol) calls)"
  using NewOrderBook_inv by (rule run_inv)

lemma reachable_sorted_keyed:
  "trees_sorted (run (NewOrderBook symbol) calls) \<and> levels_keyed (run (NewOrderBook symbol) calls)"
  using reachable_book_inv [of symbol calls] by (simp add: book_inv_def)

section \<open>The removal loop\<close>

lemma remove_loop_found:
  "Orders level = pre @ xs \<Longrightarrow> length pre = i \<Longrightarrow>
   find (\<lambda>x. ID x = orderID) xs = Some order \<Longrightarrow>
   remove_loop orderID q i xs level =
     level\<lparr>Orders := pre @ remove1 order xs, Volume := fsub (Volume level) q\<rparr>"
proof (induction xs arbitrary: pre i)
  case Nil
  then show ?case by simp
next
  case (Cons x rest)
  show ?case
  proof (cases "ID x = orderID")
    case True
    with Cons.prems show ?thesis by simp
  next
    case False
    with Cons.prems have f: "find (\<lambda>x. ID x = orderID) rest = Some order" by simp
    then have "ID order = orderID" by (auto simp: find_Some_iff)
    with False have ne: "x \<noteq> order" by auto
    have "remove_loop orderID q (Suc i) rest level =
            level\<lparr>Orders := (pre @ [x]) @ remove1 order rest, Volume := fsub (Volume level) q\<rparr>"
      using Cons.prems(1,2) f by (intro Cons.IH) simp_all
    with False ne show ?thesis by simp
  qed
qed

lemma remove_loop_not_found:
  "find (\<lambda>x. ID x = orderID) xs = None \<Longrightarrow> remove_loop orderID q i xs level = level"
  by (induction xs arbitrary: i) (auto split: if_splits)

lemma get_store:
  "get_entries c k es = Some l \<Longrightarrow> get_entries c k (store_entries c k v es) = Some v"
  by (induction es) (auto split: if_splits)

lemma Get_Store: "Get t k = Some l \<Longrightarrow> Get (Store t k v) k = Some v"
  by (simp add: Get_def Store_def get_store)

lemma length_store [simp]: "length (store_entries c k v es) = length es"
  by (induction es) auto

lemma TreeSize_Store [simp]: "TreeSize (Store t k v) = TreeSize t"
  by (simp add: TreeSize_def Store_def)



lemma store_same: "get_entries c k es = Some l \<Longrightarrow> store_entries c k l es = es"
  by (induction es) (auto split: if_splits)

lemma Store_same: "Get t k = Some l \<Longrightarrow> Store t k l = t"
  by (simp add: Get_def Store_def store_same)

lemma find_SomeD: "find P xs = Some x \<Longrightarrow> x \<in> set xs \<and> P x"
  by (induction xs) (auto split: if_splits)

lemma tree_cut_found:
  assumes "Get t (Price order) = Some level"
    and "find (\<lambda>x. ID x = orderID) (Orders level) = Some x"
  shows "tree_cut t order orderID =
     (if remove1 x (Orders level) = [] then Remove t (Price order)
      else Store t (Price order)
             (level\<lparr>Orders := remove1 x (Orders level),
                    Volume := fsub (Volume level) (fsub (Quantity order) (FilledQty order))\<rparr>))"
  using assms remove_loop_found [of level "[]" "Orders level" 0 orderID x]
  by (simp add: tree_cut_def)

lemma tree_cut_not_found:
  assumes "Get t (Price order) = Some level"
    and "find (\<lambda>x. ID x = orderID) (Orders level) = None"
  shows "tree_cut t order orderID = (if Orders level = [] then Remove t (Price order) else t)"
  using assms by (simp add: tree_cut_def remove_loop_not_found Store_same)

section \<open>The read-only views\<close>

lemma depth_loop_take:
  "0 \<le> count \<Longrightarrow> count \<le> levels \<Longrightarrow>
   depth_loop es count levels acc = acc @ take (nat (levels - count)) (map snd es)"
proof (induction es arbitrary: count acc)
  case Nil
  then show ?case by simp
next
  case (Cons e es)
  obtain k level where e: "e = (k, level)" by (cases e)
  show ?case
  proof (cases "count < levels")
    case True
    then have "nat (levels - count) = Suc (nat (levels - (count + 1)))" by linarith
    with True Cons e show ?thesis by simp
  next
    case False
    with Cons.prems have "levels - count = 0" by simp
    with False e show ?thesis by simp
  qed
qed

lemma sorted_wrt_take_drop:
  "sorted_wrt R xs \<Longrightarrow> x \<in> set (take n xs) \<Longrightarrow> y \<in> set (drop n xs) \<Longrightarrow> R x y"
proof -
  assume s: "sorted_wrt R xs" and x: "x \<in> set (take n xs)" and y: "y \<in> set (drop n xs)"
  have "sorted_wrt R (take n xs @ drop n xs)" using s by simp
  then show "R x y" using x y unfolding sorted_wrt_append by blast
qed

lemma hd_Max: "sorted_wrt (>) (k # ks) \<Longrightarrow> Max (set (k # ks)) = (k::real)"
  by (rule Max_eqI) auto

lemma hd_Min: "sorted_wrt (<) (k # ks) \<Longrightarrow> Min (set (k # ks)) = (k::real)"
  by (rule Min_eqI) auto

section \<open>Orders, levels and the index\<close>

lemma get_in:
  assumes "\<And>a b. (c a b = 0) = (a = b)"
  shows "get_entries c k es = Some l \<Longrightarrow> (k, l) \<in> set es"
  using assms by (induction es) (auto split: if_splits)

lemma in_get:
  assumes "\<And>a b. (c a b = 0) = (a = b)"
  shows "distinct (map fst es) \<Longrightarrow> (k, l) \<in> set es \<Longrightarrow> get_entries c k es = Some l"
  using assms by (induction es) (auto split: if_splits simp: rev_image_eqI)

lemma store_set:
  assumes "\<And>a b. (c a b = 0) = (a = b)"
  shows "distinct (map fst es) \<Longrightarrow> get_entries c k es = Some l \<Longrightarrow>
         set (store_entries c k v es) = insert (k, v) (set es - {(k, l)})"
proof (induction es)
  case Nil
  then show ?case by simp
next
  case (Cons e es)
  obtain k' v' where e: "e = (k', v')" by (cases e)
  show ?case
  proof (cases "k = k'")
    case True
    with Cons.prems e assms have "l = v'" and "(k, l) \<notin> set es"
      by (auto simp: rev_image_eqI)
    with True e assms show ?thesis by auto
  next
    case False
    with Cons e assms have "set (store_entries c k v es) = insert (k, v) (set es - {(k, l)})"
      by simp
    with False e assms show ?thesis by auto
  qed
qed

lemma remove_set:
  assumes "\<And>a b. (c a b = 0) = (a = b)"
  shows "distinct (map fst es) \<Longrightarrow> get_entries c k es = Some l \<Longrightarrow>
         set (remove_entries c k es) = set es - {(k, l)}"
proof (induction es)
  case Nil
  then show ?case by simp
next
  case (Cons e es)
  obtain k' v' where e: "e = (k', v')" by (cases e)
  show ?case
  proof (cases "k = k'")
    case True
    with Cons.prems e assms have "l = v'" and "(k, l) \<notin> set es"
      by (auto simp: rev_image_eqI)
    with True e assms show ?thesis by auto
  next
    case False
    with Cons e assms have "set (remove_entries c k es) = set es - {(k, l)}"
      by simp
    with False e assms show ?thesis by auto
  qed
qed

lemma put_set:
  "get_entries c k es = None \<Longrightarrow> set (put_entries c k v es) = insert (k, v) (set es)"
  by (induction es) (auto split: if_splits)

lemma sorted_distinct_gt: "sorted_wrt (>) (ks :: real list) \<Longrightarrow> distinct ks"
  by (induction ks) auto

lemma sorted_distinct_lt: "sorted_wrt (<) (ks :: real list) \<Longrightarrow> distinct ks"
  by (induction ks) auto

lemma buyComparator_eq: "(buyComparator a b = 0) = (a = b)"
  by (auto simp: buyComparator_def)

lemma sellComparator_eq: "(sellComparator a b = 0) = (a = b)"
  by (auto simp: sellComparator_def)

lemma sum_remove1:
  "x \<in> set xs \<Longrightarrow> sum_list (map f (remove1 x xs)) = sum_list (map f xs) - (f x :: real)"
  by (induction xs) auto

lemma distinct_map_remove1:
  "distinct (map f xs) \<Longrightarrow> distinct (map f (remove1 x xs))"
proof (induction xs)
  case Nil
  then show ?case by simp
next
  case (Cons y ys)
  then show ?case using set_remove1_subset [of x ys] by auto
qed

lemma remove1_no_id:
  assumes "distinct (map f xs)" and "x \<in> set xs" and "y \<in> set (remove1 x xs)"
  shows "f y \<noteq> f x"
proof -
  from assms(1) have d: "distinct xs" and i: "inj_on f (set xs)"
    by (simp_all add: distinct_map)
  from d assms(3) have "y \<in> set xs" and "y \<noteq> x" by simp_all
  with i assms(2) show ?thesis by (auto dest: inj_onD)
qed

lemma level_ok_iff:
  "level_ok m isBuy (k, l) =
     (Volume l = sum_list (map residual (Orders l)) \<and> distinct (map ID (Orders l)) \<and>
      (\<forall>x \<in> set (Orders l). Price x = k \<and> (Side x = Buy) = isBuy \<and> fmlookup m (ID x) = Some x))"
  by (simp add: level_ok_def list_all_iff)

lemma level_ok_fmupd:
  assumes "level_ok m isBuy e" and "fmlookup m i = None"
  shows "level_ok (fmupd i v m) isBuy e"
proof -
  have "\<forall>x \<in> set (Orders (snd e)). ID x \<noteq> i"
    using assms by (auto simp: level_ok_def list_all_iff)
  then show ?thesis using assms(1) by (auto simp: level_ok_def list_all_iff)
qed

lemma level_ok_fmdrop:
  assumes "level_ok m isBuy e" and "\<forall>x \<in> set (Orders (snd e)). ID x \<noteq> i"
  shows "level_ok (fmdrop i m) isBuy e"
  using assms by (auto simp: level_ok_def list_all_iff)

lemma tree_ok_fmupd:
  "tree_ok m isBuy t \<Longrightarrow> fmlookup m i = None \<Longrightarrow> tree_ok (fmupd i v m) isBuy t"
  by (simp add: tree_ok_def list_all_iff level_ok_fmupd)

lemma tree_ok_fmdrop_other:
  assumes "tree_ok m isBuy t" and "fmlookup m i = Some order" and "(Side order = Buy) \<noteq> isBuy"
  shows "tree_ok (fmdrop i m) isBuy t"
proof -
  have "level_ok (fmdrop i m) isBuy e" if e: "e \<in> set (Entries t)" for e
  proof (rule level_ok_fmdrop)
    show "level_ok m isBuy e" using assms(1) e by (simp add: tree_ok_def list_all_iff)
    then show "\<forall>x \<in> set (Orders (snd e)). ID x \<noteq> i"
      using assms(2,3) by (auto simp: level_ok_def list_all_iff)
  qed
  then show ?thesis by (simp add: tree_ok_def list_all_iff)
qed

lemma tree_ok_Put:
  assumes "Get t k = None" and "\<forall>e \<in> set (Entries t). level_ok m isBuy e"
    and "level_ok m isBuy (k, v)"
  shows "tree_ok m isBuy (Put t k v)"
proof -
  from assms(1) have g: "get_entries (Comparator t) k (Entries t) = None"
    by (simp add: Get_def)
  have "set (Entries (Put t k v)) = insert (k, v) (set (Entries t))"
    by (simp add: Put_def put_set [OF g])
  with assms(2,3) show ?thesis by (simp add: tree_ok_def list_all_iff)
qed

lemma tree_ok_Store:
  assumes eqc: "\<And>a b. (Comparator t a b = 0) = (a = b)"
    and dk: "distinct (map fst (Entries t))"
    and "Get t k = Some l" and "\<forall>e \<in> set (Entries t) - {(k, l)}. level_ok m isBuy e"
    and "level_ok m isBuy (k, v)"
  shows "tree_ok m isBuy (Store t k v)"
proof -
  from assms(3) have g: "get_entries (Comparator t) k (Entries t) = Some l"
    by (simp add: Get_def)
  have "set (Entries (Store t k v)) = insert (k, v) (set (Entries t) - {(k, l)})"
    by (simp add: Store_def store_set [OF eqc dk g])
  with assms(4,5) show ?thesis by (simp add: tree_ok_def list_all_iff)
qed

lemma tree_ok_Remove:
  assumes eqc: "\<And>a b. (Comparator t a b = 0) = (a = b)"
    and dk: "distinct (map fst (Entries t))"
    and "Get t k = Some l" and "\<forall>e \<in> set (Entries t) - {(k, l)}. level_ok m isBuy e"
  shows "tree_ok m isBuy (Remove t k)"
proof -
  from assms(3) have g: "get_entries (Comparator t) k (Entries t) = Some l"
    by (simp add: Get_def)
  have "set (Entries (Remove t k)) = set (Entries t) - {(k, l)}"
    by (simp add: Remove_def remove_set [OF eqc dk g])
  with assms(4) show ?thesis by (simp add: tree_ok_def list_all_iff)
qed

lemma tree_add_ok:
  assumes eqc: "\<And>a b. (Comparator t a b = 0) = (a = b)"
    and dk: "distinct (map fst (Entries t))"
    and ok: "tree_ok m isBuy t"
    and fresh: "fmlookup m (ID order) = None"
    and unf: "FilledQty order = 0"
    and side: "(Side order = Buy) = isBuy"
    and exact: "is_float64
                  ((case Get t (Price order) of None \<Rightarrow> 0 | Some level \<Rightarrow> Volume level)
                   + Quantity order)"
  shows "tree_ok (fmupd (ID order) order m) isBuy (tree_add t order)"
proof -
  let ?m = "fmupd (ID order) order m"
  have old: "\<forall>e \<in> set (Entries t). level_ok ?m isBuy e"
    using ok fresh by (simp add: tree_ok_def list_all_iff level_ok_fmupd)
  show ?thesis
  proof (cases "Get t (Price order)")
    case None
    from exact None have ex: "fadd 0 (Quantity order) = Quantity order"
      using fadd_exact [of 0 "Quantity order"] by simp
    have "level_ok ?m isBuy
        (Price order,
         \<lparr>LevelPrice = Price order, Orders = [order], Volume = fadd 0 (Quantity order)\<rparr>)"
      using unf side ex by (simp add: level_ok_iff residual_def)
    with None old have "tree_ok ?m isBuy (Put t (Price order)
        \<lparr>LevelPrice = Price order, Orders = [order], Volume = fadd 0 (Quantity order)\<rparr>)"
      by (rule tree_ok_Put)
    with None show ?thesis by (simp add: tree_add_def)
  next
    case (Some level)
    then have g: "get_entries (Comparator t) (Price order) (Entries t) = Some level"
      by (simp add: Get_def)
    have mem: "(Price order, level) \<in> set (Entries t)"
      using eqc g by (rule get_in)
    then have lv: "level_ok m isBuy (Price order, level)"
      using ok by (simp add: tree_ok_def list_all_iff)
    from lv have l0: "Volume level = sum_list (map residual (Orders level))"
      "distinct (map ID (Orders level))"
      "\<forall>x \<in> set (Orders level).
         Price x = Price order \<and> (Side x = Buy) = isBuy \<and> fmlookup m (ID x) = Some x"
      by (simp_all add: level_ok_iff)
    from l0(3) fresh have nid: "\<forall>x \<in> set (Orders level). ID x \<noteq> ID order"
      by auto
    from exact Some
    have ex: "fadd (Volume level) (Quantity order) = Volume level + Quantity order"
      by (simp add: fadd_exact)
    have "fadd (Volume level) (Quantity order) =
            sum_list (map residual (Orders level @ [order]))"
      using l0(1) unf ex by (simp add: residual_def)
    moreover have "distinct (map ID (Orders level @ [order]))"
      using l0(2) nid by auto
    moreover have "\<forall>x \<in> set (Orders level @ [order]).
         Price x = Price order \<and> (Side x = Buy) = isBuy \<and> fmlookup ?m (ID x) = Some x"
      using l0(3) nid side by auto
    ultimately have "level_ok ?m isBuy
        (Price order,
         level\<lparr>Orders := Orders level @ [order],
               Volume := fadd (Volume level) (Quantity order)\<rparr>)"
      by (simp add: level_ok_iff)
    moreover have "\<forall>e \<in> set (Entries t) - {(Price order, level)}. level_ok ?m isBuy e"
      using old by simp
    ultimately have "tree_ok ?m isBuy (Store t (Price order)
        (level\<lparr>Orders := Orders level @ [order],
               Volume := fadd (Volume level) (Quantity order)\<rparr>))"
      using tree_ok_Store [OF eqc dk Some] by blast
    with Some show ?thesis by (simp add: tree_add_def)
  qed
qed

lemma tree_cut_ok:
  assumes eqc: "\<And>a b. (Comparator t a b = 0) = (a = b)"
    and dk: "distinct (map fst (Entries t))"
    and ok: "tree_ok m isBuy t"
    and idx: "fmlookup m orderID = Some order"
    and exact: "case Get t (Price order) of
                  None \<Rightarrow> True
                | Some level \<Rightarrow>
                    is_float64 (Quantity order - FilledQty order) \<and>
                    is_float64 (Volume level - (Quantity order - FilledQty order))"
  shows "tree_ok (fmdrop orderID m) isBuy (tree_cut t order orderID)"
proof -
  let ?m = "fmdrop orderID m"
  let ?k = "Price order"
  have lv: "level_ok m isBuy e" if "e \<in> set (Entries t)" for e
    using ok that by (simp add: tree_ok_def list_all_iff)
  have key: "x = order \<and> get_entries (Comparator t) ?k (Entries t) = Some l \<and> k = ?k"
    if "(k, l) \<in> set (Entries t)" and "x \<in> set (Orders l)" and "ID x = orderID" for k l x
  proof -
    from lv [OF that(1)] that(2) have p: "Price x = k" and i: "fmlookup m (ID x) = Some x"
      by (simp_all add: level_ok_iff)
    from i that(3) idx have x: "x = order" by simp
    with p that(1) have "(?k, l) \<in> set (Entries t)" by simp
    with eqc dk have "get_entries (Comparator t) ?k (Entries t) = Some l" by (rule in_get)
    with x p show ?thesis by simp
  qed
  show ?thesis
  proof (cases "Get t ?k")
    case None
    then have g: "get_entries (Comparator t) ?k (Entries t) = None" by (simp add: Get_def)
    have "level_ok ?m isBuy e" if e: "e \<in> set (Entries t)" for e
    proof (rule level_ok_fmdrop [OF lv [OF e]], rule ballI, rule notI)
      fix x assume "x \<in> set (Orders (snd e))" and "ID x = orderID"
      with key [of "fst e" "snd e" x] e g show False by simp
    qed
    with None show ?thesis by (simp add: tree_cut_def tree_ok_def list_all_iff)
  next
    case (Some level0)
    then have g: "get_entries (Comparator t) ?k (Entries t) = Some level0"
      by (simp add: Get_def)
    have mem: "(?k, level0) \<in> set (Entries t)" using eqc g by (rule get_in)
    have others: "\<forall>e \<in> set (Entries t) - {(?k, level0)}. level_ok ?m isBuy e"
    proof
      fix e assume e: "e \<in> set (Entries t) - {(?k, level0)}"
      then have e1: "e \<in> set (Entries t)" by simp
      show "level_ok ?m isBuy e"
      proof (rule level_ok_fmdrop [OF lv [OF e1]], rule ballI, rule notI)
        fix x assume "x \<in> set (Orders (snd e))" and "ID x = orderID"
        with key [of "fst e" "snd e" x] e1 g have "snd e = level0" and "fst e = ?k" by simp_all
        then have "e = (?k, level0)" by (cases e) simp
        with e show False by simp
      qed
    qed
    show ?thesis
    proof (cases "find (\<lambda>x. ID x = orderID) (Orders level0)")
      case None
      then have nid: "\<forall>x \<in> set (Orders level0). ID x \<noteq> orderID"
        by (simp add: find_None_iff)
      have same: "level_ok ?m isBuy (?k, level0)"
        by (rule level_ok_fmdrop [OF lv [OF mem]]) (simp add: nid)
      have cut: "tree_cut t order orderID =
              (if Orders level0 = [] then Remove t ?k else Store t ?k level0)"
        using Some None by (simp add: tree_cut_not_found Store_same)
      show ?thesis
      proof (cases "Orders level0 = []")
        case True
        with cut tree_ok_Remove [OF eqc dk Some others] show ?thesis by simp
      next
        case False
        with cut tree_ok_Store [OF eqc dk Some others same] show ?thesis by simp
      qed
    next
      case (Some x)
      then have xin: "x \<in> set (Orders level0)" and xid: "ID x = orderID"
        by (auto dest: find_SomeD)
      with key [OF mem] have xo: "x = order" by simp
      with Some xin have f: "find (\<lambda>x. ID x = orderID) (Orders level0) = Some order"
        and oin: "order \<in> set (Orders level0)" by simp_all
      let ?l = "level0\<lparr>Orders := remove1 order (Orders level0),
                        Volume := fsub (Volume level0) (fsub (Quantity order) (FilledQty order))\<rparr>"
      from exact \<open>Get t ?k = Some level0\<close>
      have ex: "fsub (Volume level0) (fsub (Quantity order) (FilledQty order)) =
                  Volume level0 - (Quantity order - FilledQty order)"
        by (simp add: fsub_exact)
      from lv [OF mem] have l0: "Volume level0 = sum_list (map residual (Orders level0))"
        "distinct (map ID (Orders level0))"
        "\<forall>x \<in> set (Orders level0).
           Price x = ?k \<and> (Side x = Buy) = isBuy \<and> fmlookup m (ID x) = Some x"
        by (simp_all add: level_ok_iff)
      have oid: "ID order = orderID" using xo xid by simp
      have nid: "\<forall>y \<in> set (remove1 order (Orders level0)). ID y \<noteq> orderID"
        using remove1_no_id [OF l0(2) oin] oid by auto
      have sub: "set (remove1 order (Orders level0)) \<subseteq> set (Orders level0)"
        by (rule set_remove1_subset)
      have "fsub (Volume level0) (fsub (Quantity order) (FilledQty order)) =
              sum_list (map residual (remove1 order (Orders level0)))"
        using l0(1) oin ex by (simp add: sum_remove1 residual_def)
      moreover have "distinct (map ID (remove1 order (Orders level0)))"
        using l0(2) by (rule distinct_map_remove1)
      moreover have "\<forall>x \<in> set (remove1 order (Orders level0)).
           Price x = ?k \<and> (Side x = Buy) = isBuy \<and> fmlookup ?m (ID x) = Some x"
        using l0(3) nid sub by auto
      ultimately have new: "level_ok ?m isBuy (?k, ?l)"
        by (simp add: level_ok_iff)
      have cut: "tree_cut t order orderID =
              (if remove1 order (Orders level0) = [] then Remove t ?k else Store t ?k ?l)"
        using \<open>Get t ?k = Some level0\<close> f by (rule tree_cut_found)
      show ?thesis
      proof (cases "remove1 order (Orders level0) = []")
        case True
        with cut tree_ok_Remove [OF eqc dk \<open>Get t ?k = Some level0\<close> others] show ?thesis
          by simp
      next
        case False
        with cut tree_ok_Store [OF eqc dk \<open>Get t ?k = Some level0\<close> others new] show ?thesis
          by simp
      qed
    qed
  qed
qed

section \<open>Consistency of reachable books\<close>

lemma book_inv_buy:
  assumes "book_inv ob"
  shows "(Comparator (BuyTree ob) a b = 0) = (a = b)"
    and "distinct (map fst (Entries (BuyTree ob)))"
  using assms
  by (simp_all add: book_inv_def trees_sorted_def buyComparator_eq sorted_distinct_gt)

lemma book_inv_sell:
  assumes "book_inv ob"
  shows "(Comparator (SellTree ob) a b = 0) = (a = b)"
    and "distinct (map fst (Entries (SellTree ob)))"
  using assms
  by (simp_all add: book_inv_def trees_sorted_def sellComparator_eq sorted_distinct_lt)

lemma stamped_fields [simp]:
  "ID (stamped ob order) = ID order" "FilledQty (stamped ob order) = FilledQty order"
  "Side (stamped ob order) = Side order" "Price (stamped ob order) = Price order"
  "Quantity (stamped ob order) = Quantity order"
  by (simp_all add: stamped_def)

lemma AddOrder_consistent:
  assumes c: "book_consistent ob" and unf: "FilledQty order = 0"
    and fresh: "fmlookup (OrderMap ob) (ID order) = None"
    and exact: "is_float64
                  ((case Get (getTree ob (Side order)) (Price order) of
                      None \<Rightarrow> 0
                    | Some level \<Rightarrow> Volume level) + Quantity order)"
  shows "book_consistent (AddOrder ob order)"
proof -
  from c have inv: "book_inv ob" and b: "tree_ok (OrderMap ob) True (BuyTree ob)"
    and s: "tree_ok (OrderMap ob) False (SellTree ob)"
    by (simp_all add: book_consistent_def)
  have inv': "book_inv (AddOrder ob order)" using inv by (rule AddOrder_inv)
  let ?o = "stamped ob order"
  have fresh': "fmlookup (OrderMap ob) (ID ?o) = None" and unf': "FilledQty ?o = 0"
    using fresh unf by simp_all
  show ?thesis
  proof (cases "Side order = Buy")
    case True
    then have "(Side ?o = Buy) = True" by simp
    moreover from exact True
    have "is_float64
            ((case Get (BuyTree ob) (Price ?o) of None \<Rightarrow> 0 | Some level \<Rightarrow> Volume level)
             + Quantity ?o)"
      by (simp add: getTree_def)
    ultimately
    have "tree_ok (fmupd (ID ?o) ?o (OrderMap ob)) True (tree_add (BuyTree ob) ?o)"
      using book_inv_buy [OF inv] b fresh' unf' by (intro tree_add_ok) simp_all
    moreover have "tree_ok (fmupd (ID ?o) ?o (OrderMap ob)) False (SellTree ob)"
      using s fresh' by (rule tree_ok_fmupd)
    ultimately show ?thesis
      using True inv'
      by (simp add: book_consistent_def AddOrder_OrderMap AddOrder_BuyTree AddOrder_SellTree)
  next
    case False
    then have "(Side ?o = Buy) = False" by simp
    moreover from exact False
    have "is_float64
            ((case Get (SellTree ob) (Price ?o) of None \<Rightarrow> 0 | Some level \<Rightarrow> Volume level)
             + Quantity ?o)"
      by (simp add: getTree_def)
    ultimately
    have "tree_ok (fmupd (ID ?o) ?o (OrderMap ob)) False (tree_add (SellTree ob) ?o)"
      using book_inv_sell [OF inv] s fresh' unf' by (intro tree_add_ok) simp_all
    moreover have "tree_ok (fmupd (ID ?o) ?o (OrderMap ob)) True (BuyTree ob)"
      using b fresh' by (rule tree_ok_fmupd)
    ultimately show ?thesis
      using False inv'
      by (simp add: book_consistent_def AddOrder_OrderMap AddOrder_BuyTree AddOrder_SellTree)
  qed
qed

lemma RemoveOrder_consistent:
  assumes c: "book_consistent ob"
    and exact: "case fmlookup (OrderMap ob) orderID of
                  None \<Rightarrow> True
                | Some order \<Rightarrow>
                    (case Get (getTree ob (Side order)) (Price order) of
                       None \<Rightarrow> True
                     | Some level \<Rightarrow>
                         is_float64 (Quantity order - FilledQty order) \<and>
                         is_float64 (Volume level - (Quantity order - FilledQty order)))"
  shows "book_consistent (snd (RemoveOrder ob orderID))"
proof (cases "fmlookup (OrderMap ob) orderID")
  case None
  with c show ?thesis by (simp add: RemoveOrder_None)
next
  case (Some order)
  from c have inv: "book_inv ob" and b: "tree_ok (OrderMap ob) True (BuyTree ob)"
    and s: "tree_ok (OrderMap ob) False (SellTree ob)"
    by (simp_all add: book_consistent_def)
  have inv': "book_inv (snd (RemoveOrder ob orderID))" using inv by (rule RemoveOrder_inv)
  show ?thesis
  proof (cases "Side order = Buy")
    case True
    from exact Some True
    have "case Get (BuyTree ob) (Price order) of
            None \<Rightarrow> True
          | Some level \<Rightarrow>
              is_float64 (Quantity order - FilledQty order) \<and>
              is_float64 (Volume level - (Quantity order - FilledQty order))"
      by (simp add: getTree_def)
    then
    have "tree_ok (fmdrop orderID (OrderMap ob)) True (tree_cut (BuyTree ob) order orderID)"
      using book_inv_buy [OF inv] b Some by (intro tree_cut_ok) simp_all
    moreover have "tree_ok (fmdrop orderID (OrderMap ob)) False (SellTree ob)"
      using s Some True by (intro tree_ok_fmdrop_other) simp_all
    ultimately show ?thesis
      using True inv'
      by (simp add: book_consistent_def RemoveOrder_OrderMap RemoveOrder_BuyTree [OF Some]
          RemoveOrder_SellTree [OF Some])
  next
    case False
    from exact Some False
    have "case Get (SellTree ob) (Price order) of
            None \<Rightarrow> True
          | Some level \<Rightarrow>
              is_float64 (Quantity order - FilledQty order) \<and>
              is_float64 (Volume level - (Quantity order - FilledQty order))"
      by (simp add: getTree_def)
    then
    have "tree_ok (fmdrop orderID (OrderMap ob)) False (tree_cut (SellTree ob) order orderID)"
      using book_inv_sell [OF inv] s Some by (intro tree_cut_ok) simp_all
    moreover have "tree_ok (fmdrop orderID (OrderMap ob)) True (BuyTree ob)"
      using b Some False by (intro tree_ok_fmdrop_other) simp_all
    ultimately show ?thesis
      using False inv'
      by (simp add: book_consistent_def RemoveOrder_OrderMap RemoveOrder_BuyTree [OF Some]
          RemoveOrder_SellTree [OF Some])
  qed
qed

lemma NewOrderBook_consistent: "book_consistent (NewOrderBook symbol)"
  using NewOrderBook_inv [of symbol]
  by (simp add: book_consistent_def tree_ok_def NewOrderBook_def NewWith_def)

lemma run_consistent:
  "book_consistent ob \<Longrightarrow> fresh_unfilled ob calls \<Longrightarrow> exact_volumes ob calls \<Longrightarrow>
   book_consistent (run ob calls)"
proof (induction calls arbitrary: ob)
  case Nil
  then show ?case by simp
next
  case (Cons c cs)
  then show ?case
    by (cases c) (simp_all add: AddOrder_consistent RemoveOrder_consistent)
qed

lemma consistent_volume: "book_consistent ob \<Longrightarrow> volume_ok ob"
  by (auto simp: book_consistent_def tree_ok_def level_ok_def volume_ok_def bidLevels_def
      askLevels_def list_all_iff)

lemma get_put: "c k k = 0 \<Longrightarrow> get_entries c k (put_entries c k v es) = Some v"
  by (induction es) auto

lemma Get_tree_add:
  assumes "\<And>a b. (Comparator t a b = 0) = (a = b)"
  shows "map_option Volume (Get (tree_add t order) (Price order)) =
           Some (fadd (case Get t (Price order) of None \<Rightarrow> 0 | Some level \<Rightarrow> Volume level)
                   (Quantity order))"
proof (cases "Get t (Price order)")
  case None
  have "Comparator t (Price order) (Price order) = 0" by (simp add: assms)
  with None show ?thesis by (simp add: tree_add_def Get_def Put_def get_put)
next
  case (Some level)
  then show ?thesis by (simp add: tree_add_def Get_Store)
qed

section \<open>Volume of a level\<close>

text \<open>
  C1, as the code has it by design. In every book reached from \<open>NewOrderBook\<close> by
  \<open>AddOrder\<close> and \<open>RemoveOrder\<close> calls in which each added order is unfilled and carries
  an identifier that is not indexed at the time of the call, and in which no addition to
  or subtraction from a volume rounds or overflows, every level of either tree has a
  volume equal to the sum of the residuals of its orders; and \<open>AddOrder\<close> of an unfilled
  order to such a book adds the order's residual to the volume of its level by one
  \<^verbatim>\<open>float64\<close> addition (a new level starts from 0).
\<close>

theorem volume_invariant:
  assumes "fresh_unfilled (NewOrderBook symbol) calls"
    and "exact_volumes (NewOrderBook symbol) calls"
  shows "volume_ok (run (NewOrderBook symbol) calls) \<and>
         (FilledQty order = 0 \<longrightarrow>
            map_option Volume
              (Get (getTree (AddOrder (run (NewOrderBook symbol) calls) order) (Side order))
                 (Price order)) =
            Some (fadd
                   (case Get (getTree (run (NewOrderBook symbol) calls) (Side order)) (Price order) of
                      None \<Rightarrow> 0
                    | Some level \<Rightarrow> Volume level)
                   (residual order)))"
proof -
  let ?ob = "run (NewOrderBook symbol) calls"
  have c: "book_consistent ?ob"
    using NewOrderBook_consistent assms by (rule run_consistent)
  then have inv: "book_inv ?ob" by (simp add: book_consistent_def)
  have "map_option Volume (Get (getTree (AddOrder ?ob order) (Side order)) (Price order)) =
          Some (fadd (case Get (getTree ?ob (Side order)) (Price order) of
                        None \<Rightarrow> 0 | Some level \<Rightarrow> Volume level) (Quantity order))"
  proof (cases "Side order = Buy")
    case True
    with Get_tree_add [of "BuyTree ?ob" "stamped ?ob order"] book_inv_buy(1) [OF inv]
    show ?thesis by (simp add: getTree_def AddOrder_BuyTree)
  next
    case False
    with Get_tree_add [of "SellTree ?ob" "stamped ?ob order"] book_inv_sell(1) [OF inv]
    show ?thesis by (simp add: getTree_def AddOrder_SellTree)
  qed
  with consistent_volume [OF c] show ?thesis by (simp add: residual_def)
qed

theorem volume_invariant_witness:
  "fresh_unfilled (NewOrderBook ''X'')
      [CallAddOrder (exampleOrder ''A'' Buy 100 1 0), CallAddOrder (exampleOrder ''B'' Buy 100 2 0),
       CallAddOrder (exampleOrder ''C'' Buy 100 3 0), CallRemoveOrder ''B''] \<and>
   exact_volumes (NewOrderBook ''X'')
      [CallAddOrder (exampleOrder ''A'' Buy 100 1 0), CallAddOrder (exampleOrder ''B'' Buy 100 2 0),
       CallAddOrder (exampleOrder ''C'' Buy 100 3 0), CallRemoveOrder ''B''] \<and>
   volume_ok (run (NewOrderBook ''X'')
      [CallAddOrder (exampleOrder ''A'' Buy 100 1 0), CallAddOrder (exampleOrder ''B'' Buy 100 2 0),
       CallAddOrder (exampleOrder ''C'' Buy 100 3 0), CallRemoveOrder ''B'']) \<and>
   map Volume (bidLevels (run (NewOrderBook ''X'')
      [CallAddOrder (exampleOrder ''A'' Buy 100 1 0), CallAddOrder (exampleOrder ''B'' Buy 100 2 0),
       CallAddOrder (exampleOrder ''C'' Buy 100 3 0), CallRemoveOrder ''B''])) = [4] \<and>
   FilledQty (exampleOrder ''D'' Buy 100 2 0) = 0 \<and>
   map_option Volume (Get (BuyTree (AddOrder (run (NewOrderBook ''X'')
      [CallAddOrder (exampleOrder ''A'' Buy 100 1 0), CallAddOrder (exampleOrder ''B'' Buy 100 2 0),
       CallAddOrder (exampleOrder ''C'' Buy 100 3 0), CallRemoveOrder ''B''])
      (exampleOrder ''D'' Buy 100 2 0))) 100) = Some 6"
  using volume_invariant [of "''X''"
      "[CallAddOrder (exampleOrder ''A'' Buy 100 1 0), CallAddOrder (exampleOrder ''B'' Buy 100 2 0),
       CallAddOrder (exampleOrder ''C'' Buy 100 3 0), CallRemoveOrder ''B'']"
      "exampleOrder ''D'' Buy 100 2 0"]
  by (simp add: book_eval bidLevels_def)

text \<open>
  C1 as stated fails on three runs. An order added with quantity 2 of which 1 is filled
  gives its level volume 2 against a residual of 1: \<open>AddOrder\<close> adds \<^verbatim>\<open>order.Quantity\<close>,
  while \<open>RemoveOrder\<close> subtracts \<^verbatim>\<open>order.Quantity - order.FilledQty\<close>. After two orders with
  the same identifier at one price, of quantities 1 and 5, removing the identifier cuts
  the first out and subtracts the residual of the second: volume 1 against a residual of 5.
  And with unfilled orders under distinct identifiers, of quantities \<open>2^53\<close> and 1, the
  addition rounds \<open>2^53 + 1\<close> to \<open>2^53\<close>; removing the first order leaves volume 0 against
  a residual of 1.
\<close>

theorem volume_invariant_counterexample:
  "map Volume (bidLevels (run (NewOrderBook ''X'') [CallAddOrder (exampleOrder ''a'' Buy 100 2 1)]))
     = [2] \<and>
   map (\<lambda>level. sum_list (map residual (Orders level)))
     (bidLevels (run (NewOrderBook ''X'') [CallAddOrder (exampleOrder ''a'' Buy 100 2 1)])) = [1] \<and>
   \<not> volume_ok (run (NewOrderBook ''X'') [CallAddOrder (exampleOrder ''a'' Buy 100 2 1)]) \<and>
   map Volume (bidLevels (run (NewOrderBook ''X'')
      [CallAddOrder (exampleOrder ''a'' Buy 100 1 0), CallAddOrder (exampleOrder ''a'' Buy 100 5 0),
       CallRemoveOrder ''a''])) = [1] \<and>
   map (\<lambda>level. sum_list (map residual (Orders level)))
     (bidLevels (run (NewOrderBook ''X'')
      [CallAddOrder (exampleOrder ''a'' Buy 100 1 0), CallAddOrder (exampleOrder ''a'' Buy 100 5 0),
       CallRemoveOrder ''a''])) = [5] \<and>
   \<not> volume_ok (run (NewOrderBook ''X'')
      [CallAddOrder (exampleOrder ''a'' Buy 100 1 0), CallAddOrder (exampleOrder ''a'' Buy 100 5 0),
       CallRemoveOrder ''a'']) \<and>
   fresh_unfilled (NewOrderBook ''X'')
      [CallAddOrder (exampleOrder ''A'' Buy 100 9007199254740992 0),
       CallAddOrder (exampleOrder ''B'' Buy 100 1 0), CallRemoveOrder ''A''] \<and>
   map Volume (bidLevels (run (NewOrderBook ''X'')
      [CallAddOrder (exampleOrder ''A'' Buy 100 9007199254740992 0),
       CallAddOrder (exampleOrder ''B'' Buy 100 1 0), CallRemoveOrder ''A''])) = [0] \<and>
   map (\<lambda>level. sum_list (map residual (Orders level)))
     (bidLevels (run (NewOrderBook ''X'')
      [CallAddOrder (exampleOrder ''A'' Buy 100 9007199254740992 0),
       CallAddOrder (exampleOrder ''B'' Buy 100 1 0), CallRemoveOrder ''A''])) = [1] \<and>
   \<not> volume_ok (run (NewOrderBook ''X'')
      [CallAddOrder (exampleOrder ''A'' Buy 100 9007199254740992 0),
       CallAddOrder (exampleOrder ''B'' Buy 100 1 0), CallRemoveOrder ''A''])"
  by (simp add: book_eval bidLevels_def askLevels_def volume_ok_def residual_def round64_tie)

section \<open>Adding an identifier that is already indexed\<close>

lemma Size_fmupd_same:
  "fmlookup m k = Some old \<Longrightarrow> fcard (finsert k (fmdom m)) = fcard (fmdom m)"
  by (simp add: fmdomI finsert_absorb)

text \<open>
  C2, as the code has it. \<open>AddOrder\<close> has no result and makes no duplicate check. For an
  order whose identifier is already indexed the book changes: the call consumes a sequence
  number, replaces the index entry by the new order stamped with that number (so \<open>Size\<close>
  stays), and appends the order to the level at its price on its side, adding its
  \<open>Quantity\<close> to the volume (a \<^verbatim>\<open>float64\<close> addition), or starts that level from volume 0
  when the tree has none.
\<close>

theorem AddOrder_duplicate:
  assumes "fmlookup (OrderMap ob) (ID order) = Some old"
  shows "AddOrder ob order \<noteq> ob \<and>
         sequence (AddOrder ob order) = sequence ob + 1 \<and>
         fmlookup (OrderMap (AddOrder ob order)) (ID order) =
           Some (order\<lparr>SequenceNum := sequence ob + 1\<rparr>) \<and>
         Size (AddOrder ob order) = Size ob \<and>
         (\<forall>level. Get (getTree ob (Side order)) (Price order) = Some level \<longrightarrow>
            Get (getTree (AddOrder ob order) (Side order)) (Price order) =
              Some (level\<lparr>Orders := Orders level @ [order\<lparr>SequenceNum := sequence ob + 1\<rparr>],
                          Volume := fadd (Volume level) (Quantity order)\<rparr>)) \<and>
         (Get (getTree ob (Side order)) (Price order) = None \<longrightarrow>
            getTree (AddOrder ob order) (Side order) =
              Put (getTree ob (Side order)) (Price order)
                \<lparr>LevelPrice = Price order, Orders = [order\<lparr>SequenceNum := sequence ob + 1\<rparr>],
                 Volume = fadd 0 (Quantity order)\<rparr>)"
proof -
  have "sequence (AddOrder ob order) \<noteq> sequence ob"
    by (simp add: AddOrder_sequence)
  then have ne: "AddOrder ob order \<noteq> ob" by auto
  have sz: "Size (AddOrder ob order) = Size ob"
    using assms by (simp add: Size_def AddOrder_OrderMap Size_fmupd_same)
  show ?thesis
  proof (cases "Side order = Buy")
    case True
    then show ?thesis
      using ne sz
      by (auto simp: getTree_def AddOrder_sequence AddOrder_OrderMap AddOrder_BuyTree
          tree_add_def stamped_def Get_Store)
  next
    case False
    then show ?thesis
      using ne sz
      by (auto simp: getTree_def AddOrder_sequence AddOrder_OrderMap AddOrder_SellTree
          tree_add_def stamped_def Get_Store)
  qed
qed

theorem AddOrder_duplicate_witness:
  "fmlookup (OrderMap (AddOrder (NewOrderBook ''X'') (exampleOrder ''a'' Buy 100 5 0))) ''a''
     = Some ((exampleOrder ''a'' Buy 100 5 0)\<lparr>SequenceNum := 1\<rparr>) \<and>
   sequence (AddOrder (AddOrder (NewOrderBook ''X'') (exampleOrder ''a'' Buy 100 5 0))
               (exampleOrder ''a'' Buy 100 5 0)) = 2 \<and>
   Size (AddOrder (AddOrder (NewOrderBook ''X'') (exampleOrder ''a'' Buy 100 5 0))
               (exampleOrder ''a'' Buy 100 5 0)) = 1 \<and>
   Get (BuyTree (AddOrder (AddOrder (NewOrderBook ''X'') (exampleOrder ''a'' Buy 100 5 0))
               (exampleOrder ''a'' Buy 100 5 0))) 100
     = Some \<lparr>LevelPrice = 100,
              Orders = [(exampleOrder ''a'' Buy 100 5 0)\<lparr>SequenceNum := 1\<rparr>,
                        (exampleOrder ''a'' Buy 100 5 0)\<lparr>SequenceNum := 2\<rparr>],
              Volume = 10\<rparr>"
  using AddOrder_duplicate [of "AddOrder (NewOrderBook ''X'') (exampleOrder ''a'' Buy 100 5 0)"
      "exampleOrder ''a'' Buy 100 5 0" "(exampleOrder ''a'' Buy 100 5 0)\<lparr>SequenceNum := 1\<rparr>"]
  by (simp add: book_eval fcard_finsert_if)

text \<open>
  C2 as stated fails: after one order with identifier \<open>a\<close> a second \<open>AddOrder\<close> with the
  same identifier changes the book, moves the counter from 1 to 2 and doubles the volume at
  price 100.
\<close>

theorem AddOrder_duplicate_counterexample:
  "fmlookup (OrderMap (AddOrder (NewOrderBook ''X'') (exampleOrder ''a'' Buy 100 5 0))) ''a''
     = Some ((exampleOrder ''a'' Buy 100 5 0)\<lparr>SequenceNum := 1\<rparr>) \<and>
   AddOrder (AddOrder (NewOrderBook ''X'') (exampleOrder ''a'' Buy 100 5 0))
            (exampleOrder ''a'' Buy 100 5 0)
     \<noteq> AddOrder (NewOrderBook ''X'') (exampleOrder ''a'' Buy 100 5 0) \<and>
   sequence (AddOrder (NewOrderBook ''X'') (exampleOrder ''a'' Buy 100 5 0)) = 1 \<and>
   sequence (AddOrder (AddOrder (NewOrderBook ''X'') (exampleOrder ''a'' Buy 100 5 0))
               (exampleOrder ''a'' Buy 100 5 0)) = 2 \<and>
   map Volume (bidLevels (AddOrder (NewOrderBook ''X'') (exampleOrder ''a'' Buy 100 5 0))) = [5] \<and>
   map Volume (bidLevels (AddOrder (AddOrder (NewOrderBook ''X'') (exampleOrder ''a'' Buy 100 5 0))
               (exampleOrder ''a'' Buy 100 5 0))) = [10]"
  by (simp add: book_eval bidLevels_def)

section \<open>The sequence counter\<close>

lemma sint_small: "i < 2 ^ 63 \<Longrightarrow> sint (of_nat i :: 64 word) = int i"
proof -
  assume "i < 2 ^ 63"
  then have "int i < 2 ^ 63" by (metis of_nat_less_iff of_nat_numeral of_nat_power)
  then have "signed_take_bit 63 (int i) = int i"
    by (intro signed_take_bit_int_eq_self) simp_all
  then show ?thesis by (simp add: signed_of_nat)
qed

lemma sint_succ:
  assumes "sint (w :: 64 word) < 2 ^ 63 - 1"
  shows "sint (w + 1) = sint w + 1"
proof -
  have lo: "- (2 ^ 63) \<le> sint w" using sint_ge [of w] by simp
  have "sint (w + 1) = signed_take_bit 63 (sint w + 1)"
    by (simp add: sint_word_ariths)
  also have "\<dots> = sint w + 1"
    using assms lo by (intro signed_take_bit_int_eq_self) simp_all
  finally show ?thesis .
qed

lemma run_sequence: "sequence (run ob calls) = sequence ob + of_nat (adds calls)"
proof (induction calls arbitrary: ob)
  case Nil
  then show ?case by simp
next
  case (Cons c cs)
  then show ?case by (cases c) (simp_all add: AddOrder_sequence RemoveOrder_sequence)
qed

lemma stamps_eq:
  "stamps ob calls = map (\<lambda>i. sequence ob + of_nat i) [1 ..< Suc (adds calls)]"
proof (induction calls arbitrary: ob)
  case Nil
  then show ?case by simp
next
  case (Cons c cs)
  show ?case
  proof (cases c)
    case (CallAddOrder order)
    have "[1 ..< Suc (Suc (adds cs))] = 1 # map Suc [1 ..< Suc (adds cs)]"
      by (simp add: map_Suc_upt upt_conv_Cons del: upt_Suc)
    then have "map (\<lambda>i. sequence ob + of_nat i) [1 ..< Suc (Suc (adds cs))] =
        (sequence ob + 1) # map (\<lambda>i. sequence ob + 1 + of_nat i) [1 ..< Suc (adds cs)]"
      by (simp add: comp_def add.assoc del: upt_Suc)
    with CallAddOrder Cons.IH [of "AddOrder ob order"] show ?thesis
      by (simp add: AddOrder_OrderMap AddOrder_sequence stamped_def del: upt_Suc)
  next
    case (CallRemoveOrder orderID)
    with Cons.IH [of "snd (RemoveOrder ob orderID)"] show ?thesis
      by (simp add: RemoveOrder_sequence del: upt_Suc)
  qed
qed

lemma stamps_new:
  assumes "adds calls < 2 ^ 63"
  shows "map sint (stamps (NewOrderBook symbol) calls) = map int [1 ..< Suc (adds calls)]"
proof -
  have "map sint (stamps (NewOrderBook symbol) calls) =
          map (\<lambda>i. sint (of_nat i :: 64 word)) [1 ..< Suc (adds calls)]"
    by (simp add: stamps_eq NewOrderBook_def comp_def del: upt_Suc)
  also have "\<dots> = map int [1 ..< Suc (adds calls)]"
  proof (rule map_cong [OF refl])
    fix i assume "i \<in> set [1 ..< Suc (adds calls)]"
    then have "i < 2 ^ 63" using assms by auto
    then show "sint (of_nat i :: 64 word) = int i" by (rule sint_small)
  qed
  finally show ?thesis .
qed

lemma sorted_ints: "sorted_wrt (<) (map int [m ..< n])"
  by (simp add: sorted_wrt_map sorted_wrt_iff_nth_less del: upt_Suc)

text \<open>
  C3, as the code has it. \<open>AddOrder\<close> increments the counter by one and stamps the order
  with the new value; \<open>RemoveOrder\<close> never changes the counter, whether or not it removes
  an order. While the counter is below \<open>2^63 - 1\<close> the increment is a strict increase of
  the signed value, and in a run from \<open>NewOrderBook\<close> with fewer than \<open>2^63\<close> calls of
  \<open>AddOrder\<close> the numbers stamped are \<open>1, 2, 3, \<dots>\<close> in call order: strictly increasing,
  none reused, each greater than all stamped before it.
\<close>

theorem sequence_counter:
  "sequence (AddOrder ob order) = sequence ob + 1 \<and>
   fmlookup (OrderMap (AddOrder ob order)) (ID order) =
     Some (order\<lparr>SequenceNum := sequence ob + 1\<rparr>) \<and>
   sequence (snd (RemoveOrder ob orderID)) = sequence ob \<and>
   (sint (sequence ob) < 2 ^ 63 - 1 \<longrightarrow>
      sint (sequence (AddOrder ob order)) = sint (sequence ob) + 1) \<and>
   (adds calls < 2 ^ 63 \<longrightarrow>
      sint (sequence (run (NewOrderBook symbol) calls)) = int (adds calls) \<and>
      map sint (stamps (NewOrderBook symbol) calls) = map int [1 ..< Suc (adds calls)] \<and>
      sorted_wrt (<) (map sint (stamps (NewOrderBook symbol) calls)))"
proof -
  have "adds calls < 2 ^ 63 \<Longrightarrow> sint (sequence (run (NewOrderBook symbol) calls)) = int (adds calls)"
    using sint_small [of "adds calls"] by (simp add: run_sequence NewOrderBook_def)
  moreover have "adds calls < 2 ^ 63 \<Longrightarrow>
      sorted_wrt (<) (map sint (stamps (NewOrderBook symbol) calls))"
    by (simp only: stamps_new sorted_ints)
  ultimately show ?thesis
    by (simp add: AddOrder_sequence AddOrder_OrderMap stamped_def RemoveOrder_sequence
        sint_succ stamps_new del: upt_Suc)
qed

theorem sequence_counter_witness:
  "sint (sequence (NewOrderBook ''X'')) < 2 ^ 63 - 1 \<and>
   sint (sequence (AddOrder (NewOrderBook ''X'') (exampleOrder ''a'' Buy 100 5 0))) = 1 \<and>
   adds [CallAddOrder (exampleOrder ''a'' Buy 100 5 0), CallAddOrder (exampleOrder ''b'' Sell 103 2 0),
         CallRemoveOrder ''a'', CallAddOrder (exampleOrder ''c'' Buy 99 1 0)] < 2 ^ 63 \<and>
   map sint (stamps (NewOrderBook ''X'')
        [CallAddOrder (exampleOrder ''a'' Buy 100 5 0), CallAddOrder (exampleOrder ''b'' Sell 103 2 0),
         CallRemoveOrder ''a'', CallAddOrder (exampleOrder ''c'' Buy 99 1 0)]) = [1, 2, 3] \<and>
   sint (sequence (run (NewOrderBook ''X'')
        [CallAddOrder (exampleOrder ''a'' Buy 100 5 0), CallAddOrder (exampleOrder ''b'' Sell 103 2 0),
         CallRemoveOrder ''a'', CallAddOrder (exampleOrder ''c'' Buy 99 1 0)])) = 3"
  using sequence_counter [of "NewOrderBook ''X''" "exampleOrder ''a'' Buy 100 5 0" "''a''"
        "[CallAddOrder (exampleOrder ''a'' Buy 100 5 0), CallAddOrder (exampleOrder ''b'' Sell 103 2 0),
         CallRemoveOrder ''a'', CallAddOrder (exampleOrder ''c'' Buy 99 1 0)]" "''X''"]
  by (simp add: book_eval)

text \<open>
  C3 as stated fails: removing a live order returns it and leaves the counter at its
  value, so a cancellation is not counted; and at \<open>2^63 - 1\<close> the \<^verbatim>\<open>int64\<close> counter wraps
  to \<open>- 2^63\<close>.
\<close>

theorem sequence_counter_counterexample:
  "live (AddOrder (NewOrderBook ''X'') (exampleOrder ''a'' Buy 100 5 0)) ''a'' \<and>
   fst (RemoveOrder (AddOrder (NewOrderBook ''X'') (exampleOrder ''a'' Buy 100 5 0)) ''a'')
     = Some ((exampleOrder ''a'' Buy 100 5 0)\<lparr>SequenceNum := 1\<rparr>) \<and>
   sequence (AddOrder (NewOrderBook ''X'') (exampleOrder ''a'' Buy 100 5 0)) = 1 \<and>
   sequence (snd (RemoveOrder (AddOrder (NewOrderBook ''X'') (exampleOrder ''a'' Buy 100 5 0)) ''a'')) = 1 \<and>
   sint (sequence ((NewOrderBook ''X'')\<lparr>sequence := 0x7FFFFFFFFFFFFFFF\<rparr>)) = 9223372036854775807 \<and>
   sint (sequence (AddOrder ((NewOrderBook ''X'')\<lparr>sequence := 0x7FFFFFFFFFFFFFFF\<rparr>)
                     (exampleOrder ''a'' Buy 100 5 0))) = - 9223372036854775808"
  by (simp add: book_eval live_def)

section \<open>Removing a live order\<close>





section \<open>Removing an identifier that is not indexed\<close>

text \<open>
  C5. For every book and every identifier that is not in the order index,
  \<open>RemoveOrder\<close> returns none and leaves the whole book as it was. Consequently, when a
  call of \<open>RemoveOrder\<close> has returned an order, a second call with the same identifier
  returns none and does not change the book.
\<close>

theorem RemoveOrder_unknown:
  "(fmlookup (OrderMap ob) orderID = None \<longrightarrow> RemoveOrder ob orderID = (None, ob)) \<and>
   (\<forall>order. fst (RemoveOrder ob orderID) = Some order \<longrightarrow>
      RemoveOrder (snd (RemoveOrder ob orderID)) orderID = (None, snd (RemoveOrder ob orderID)))"
  by (auto simp: RemoveOrder_def Let_def getTree_def setTree_def split: option.splits)

theorem RemoveOrder_unknown_witness:
  "fmlookup (OrderMap (AddOrder (NewOrderBook ''X'') (exampleOrder ''a'' Buy 100 5 0))) ''b'' = None \<and>
   RemoveOrder (AddOrder (NewOrderBook ''X'') (exampleOrder ''a'' Buy 100 5 0)) ''b''
     = (None, AddOrder (NewOrderBook ''X'') (exampleOrder ''a'' Buy 100 5 0)) \<and>
   fst (RemoveOrder (AddOrder (NewOrderBook ''X'') (exampleOrder ''a'' Buy 100 5 0)) ''a'')
     = Some ((exampleOrder ''a'' Buy 100 5 0)\<lparr>SequenceNum := 1\<rparr>) \<and>
   fst (RemoveOrder (snd (RemoveOrder (AddOrder (NewOrderBook ''X'') (exampleOrder ''a'' Buy 100 5 0)) ''a'')) ''a'')
     = None"
  using RemoveOrder_unknown [of "AddOrder (NewOrderBook ''X'') (exampleOrder ''a'' Buy 100 5 0)" "''b''"]
    RemoveOrder_unknown [of "AddOrder (NewOrderBook ''X'') (exampleOrder ''a'' Buy 100 5 0)" "''a''"]
  by (simp add: book_eval)

section \<open>No empty level\<close>

text \<open>
  C6. In every book reached from \<open>NewOrderBook\<close> by a sequence of \<open>AddOrder\<close> and
  \<open>RemoveOrder\<close> calls, no level of the buy tree or of the sell tree has an empty order
  sequence.
\<close>

theorem reachable_no_empty_level: "no_empty_level (run (NewOrderBook symbol) calls)"
  using reachable_book_inv [of symbol calls] by (simp add: book_inv_def)

theorem reachable_no_empty_level_witness:
  "no_empty_level (run (NewOrderBook ''X'')
      [CallAddOrder (exampleOrder ''a'' Buy 100 5 0), CallAddOrder (exampleOrder ''b'' Sell 103 2 0),
       CallRemoveOrder ''a'']) \<and>
   bidLevels (run (NewOrderBook ''X'')
      [CallAddOrder (exampleOrder ''a'' Buy 100 5 0), CallAddOrder (exampleOrder ''b'' Sell 103 2 0),
       CallRemoveOrder ''a'']) = [] \<and>
   map LevelPrice (askLevels (run (NewOrderBook ''X'')
      [CallAddOrder (exampleOrder ''a'' Buy 100 5 0), CallAddOrder (exampleOrder ''b'' Sell 103 2 0),
       CallRemoveOrder ''a''])) = [103]"
  using reachable_no_empty_level [of "''X''"
      "[CallAddOrder (exampleOrder ''a'' Buy 100 5 0), CallAddOrder (exampleOrder ''b'' Sell 103 2 0),
       CallRemoveOrder ''a'']"]
  by (simp add: book_eval bidLevels_def askLevels_def)

section \<open>Best bid and best ask\<close>

text \<open>
  C7. For every book whose buy tree iterates in descending and whose sell tree iterates in
  ascending key order, \<open>GetBestBid\<close> returns the greatest price key of the buy tree with
  \<open>true\<close>, or \<open>(0, false)\<close> when the buy tree is empty, and \<open>GetBestAsk\<close> returns the
  least price key of the sell tree with \<open>true\<close>, or \<open>(0, false)\<close> when the sell tree is
  empty. Neither call dereferences a nil node.
\<close>

theorem best_prices:
  assumes "trees_sorted ob"
  shows "GetBestBid ob =
           (if Entries (BuyTree ob) = [] then Some (0, False)
            else Some (Max (set (map fst (Entries (BuyTree ob)))), True)) \<and>
         GetBestAsk ob =
           (if Entries (SellTree ob) = [] then Some (0, False)
            else Some (Min (set (map fst (Entries (SellTree ob)))), True))"
proof -
  have b: "sorted_wrt (>) (map fst (Entries (BuyTree ob)))"
    and s: "sorted_wrt (<) (map fst (Entries (SellTree ob)))"
    using assms by (simp_all add: trees_sorted_def)
  have "GetBestBid ob =
           (if Entries (BuyTree ob) = [] then Some (0, False)
            else Some (Max (set (map fst (Entries (BuyTree ob)))), True))"
  proof (cases "Entries (BuyTree ob)")
    case Nil
    then show ?thesis by (simp add: GetBestBid_def TreeSize_def)
  next
    case (Cons e es)
    with b have "Max (set (map fst (Entries (BuyTree ob)))) = fst e"
      using hd_Max [of "fst e" "map fst es"] by simp
    with Cons show ?thesis by (simp add: GetBestBid_def TreeSize_def Left_def)
  qed
  moreover have "GetBestAsk ob =
           (if Entries (SellTree ob) = [] then Some (0, False)
            else Some (Min (set (map fst (Entries (SellTree ob)))), True))"
  proof (cases "Entries (SellTree ob)")
    case Nil
    then show ?thesis by (simp add: GetBestAsk_def TreeSize_def)
  next
    case (Cons e es)
    with s have "Min (set (map fst (Entries (SellTree ob)))) = fst e"
      using hd_Min [of "fst e" "map fst es"] by simp
    with Cons show ?thesis by (simp add: GetBestAsk_def TreeSize_def Left_def)
  qed
  ultimately show ?thesis by simp
qed

theorem best_prices_witness:
  "trees_sorted (run (NewOrderBook ''X'')
      [CallAddOrder (exampleOrder ''a'' Buy 99 5 0), CallAddOrder (exampleOrder ''b'' Buy 100 2 0),
       CallAddOrder (exampleOrder ''c'' Sell 103 1 0), CallAddOrder (exampleOrder ''d'' Sell 102 1 0)]) \<and>
   GetBestBid (run (NewOrderBook ''X'')
      [CallAddOrder (exampleOrder ''a'' Buy 99 5 0), CallAddOrder (exampleOrder ''b'' Buy 100 2 0),
       CallAddOrder (exampleOrder ''c'' Sell 103 1 0), CallAddOrder (exampleOrder ''d'' Sell 102 1 0)])
     = Some (100, True) \<and>
   GetBestAsk (run (NewOrderBook ''X'')
      [CallAddOrder (exampleOrder ''a'' Buy 99 5 0), CallAddOrder (exampleOrder ''b'' Buy 100 2 0),
       CallAddOrder (exampleOrder ''c'' Sell 103 1 0), CallAddOrder (exampleOrder ''d'' Sell 102 1 0)])
     = Some (102, True) \<and>
   GetBestBid (NewOrderBook ''X'') = Some (0, False) \<and>
   GetBestAsk (NewOrderBook ''X'') = Some (0, False)"
  using best_prices [of "run (NewOrderBook ''X'')
      [CallAddOrder (exampleOrder ''a'' Buy 99 5 0), CallAddOrder (exampleOrder ''b'' Buy 100 2 0),
       CallAddOrder (exampleOrder ''c'' Sell 103 1 0), CallAddOrder (exampleOrder ''d'' Sell 102 1 0)]"]
  by (simp add: book_eval trees_sorted_def)

section \<open>Depth\<close>

lemma best_bid_first:
  assumes "levels_keyed ob" and "0 < m" and "bidLevels ob \<noteq> []"
  shows "GetBestBid ob = Some (LevelPrice (hd (take m (bidLevels ob))), True)"
proof -
  from assms(3) obtain e es where e: "Entries (BuyTree ob) = e # es"
    by (cases "Entries (BuyTree ob)") (simp_all add: bidLevels_def)
  then have "hd (take m (bidLevels ob)) = snd e"
    using assms(2) by (cases m) (simp_all add: bidLevels_def)
  moreover have "LevelPrice (snd e) = fst e"
    using assms(1) e by (simp add: levels_keyed_def)
  ultimately show ?thesis
    using e by (simp add: GetBestBid_def TreeSize_def Left_def)
qed

lemma best_ask_first:
  assumes "levels_keyed ob" and "0 < m" and "askLevels ob \<noteq> []"
  shows "GetBestAsk ob = Some (LevelPrice (hd (take m (askLevels ob))), True)"
proof -
  from assms(3) obtain e es where e: "Entries (SellTree ob) = e # es"
    by (cases "Entries (SellTree ob)") (simp_all add: askLevels_def)
  then have "hd (take m (askLevels ob)) = snd e"
    using assms(2) by (cases m) (simp_all add: askLevels_def)
  moreover have "LevelPrice (snd e) = fst e"
    using assms(1) e by (simp add: levels_keyed_def)
  ultimately show ?thesis
    using e by (simp add: GetBestAsk_def TreeSize_def Left_def)
qed

text \<open>
  C8. For every book and every \<open>n \<ge> 0\<close>, \<open>GetDepth n\<close> returns, for each side, the first
  \<open>min n\<close> (levels on the side) levels in iterator order, each a copy of the level with its
  price and volume; hence at most \<open>n\<close> levels per side. When the trees are sorted and
  every level is stored under its own price, as in every reachable book, the bids descend
  in price and start at the best bid, the asks ascend in price and start at the best ask,
  and every level left out is worse in price than every level returned.
\<close>

theorem GetDepth_top_levels:
  assumes "0 \<le> n"
  shows "GetDepth ob n = Some (take (nat n) (bidLevels ob), take (nat n) (askLevels ob)) \<and>
         int (length (take (nat n) (bidLevels ob))) = min n (TreeSize (BuyTree ob)) \<and>
         int (length (take (nat n) (askLevels ob))) = min n (TreeSize (SellTree ob)) \<and>
         (trees_sorted ob \<and> levels_keyed ob \<longrightarrow>
            sorted_wrt (>) (map LevelPrice (take (nat n) (bidLevels ob))) \<and>
            sorted_wrt (<) (map LevelPrice (take (nat n) (askLevels ob))) \<and>
            (take (nat n) (bidLevels ob) \<noteq> [] \<longrightarrow>
               GetBestBid ob = Some (LevelPrice (hd (take (nat n) (bidLevels ob))), True)) \<and>
            (take (nat n) (askLevels ob) \<noteq> [] \<longrightarrow>
               GetBestAsk ob = Some (LevelPrice (hd (take (nat n) (askLevels ob))), True)) \<and>
            (\<forall>b \<in> set (take (nat n) (bidLevels ob)). \<forall>l \<in> set (drop (nat n) (bidLevels ob)).
               LevelPrice l < LevelPrice b) \<and>
            (\<forall>a \<in> set (take (nat n) (askLevels ob)). \<forall>l \<in> set (drop (nat n) (askLevels ob)).
               LevelPrice a < LevelPrice l))"
proof -
  have 1: "GetDepth ob n = Some (take (nat n) (bidLevels ob), take (nat n) (askLevels ob))"
    using assms by (simp add: GetDepth_def depth_loop_take bidLevels_def askLevels_def)
  have 2: "int (length (take (nat n) (bidLevels ob))) = min n (TreeSize (BuyTree ob))"
    and 3: "int (length (take (nat n) (askLevels ob))) = min n (TreeSize (SellTree ob))"
    using assms by (auto simp: bidLevels_def askLevels_def TreeSize_def min_def)
  have 4: "sorted_wrt (>) (map LevelPrice (take (nat n) (bidLevels ob))) \<and>
           sorted_wrt (<) (map LevelPrice (take (nat n) (askLevels ob))) \<and>
           (take (nat n) (bidLevels ob) \<noteq> [] \<longrightarrow>
              GetBestBid ob = Some (LevelPrice (hd (take (nat n) (bidLevels ob))), True)) \<and>
           (take (nat n) (askLevels ob) \<noteq> [] \<longrightarrow>
              GetBestAsk ob = Some (LevelPrice (hd (take (nat n) (askLevels ob))), True)) \<and>
           (\<forall>b \<in> set (take (nat n) (bidLevels ob)). \<forall>l \<in> set (drop (nat n) (bidLevels ob)).
              LevelPrice l < LevelPrice b) \<and>
           (\<forall>a \<in> set (take (nat n) (askLevels ob)). \<forall>l \<in> set (drop (nat n) (askLevels ob)).
              LevelPrice a < LevelPrice l)"
    if sorted: "trees_sorted ob" and keyed: "levels_keyed ob"
  proof -
    have pb: "map LevelPrice (bidLevels ob) = map fst (Entries (BuyTree ob))"
      and pa: "map LevelPrice (askLevels ob) = map fst (Entries (SellTree ob))"
      using keyed by (auto simp: levels_keyed_def bidLevels_def askLevels_def list_all_iff)
    have "sorted_wrt (>) (map LevelPrice (bidLevels ob))"
      and "sorted_wrt (<) (map LevelPrice (askLevels ob))"
      using sorted by (simp_all add: trees_sorted_def pb pa)
    then have sb: "sorted_wrt (\<lambda>x y. LevelPrice y < LevelPrice x) (bidLevels ob)"
      and sa: "sorted_wrt (\<lambda>x y. LevelPrice x < LevelPrice y) (askLevels ob)"
      by (simp_all add: sorted_wrt_map)
    have a: "sorted_wrt (>) (map LevelPrice (take (nat n) (bidLevels ob)))"
      and b: "sorted_wrt (<) (map LevelPrice (take (nat n) (askLevels ob)))"
      using sb sa by (simp_all add: sorted_wrt_map sorted_wrt_take)
    have c: "take (nat n) (bidLevels ob) \<noteq> [] \<longrightarrow>
              GetBestBid ob = Some (LevelPrice (hd (take (nat n) (bidLevels ob))), True)"
      using best_bid_first [OF keyed, of "nat n"] by (cases "nat n") auto
    have d: "take (nat n) (askLevels ob) \<noteq> [] \<longrightarrow>
              GetBestAsk ob = Some (LevelPrice (hd (take (nat n) (askLevels ob))), True)"
      using best_ask_first [OF keyed, of "nat n"] by (cases "nat n") auto
    have e: "\<forall>b \<in> set (take (nat n) (bidLevels ob)). \<forall>l \<in> set (drop (nat n) (bidLevels ob)).
              LevelPrice l < LevelPrice b"
      using sorted_wrt_take_drop [OF sb] by blast
    have f: "\<forall>a \<in> set (take (nat n) (askLevels ob)). \<forall>l \<in> set (drop (nat n) (askLevels ob)).
              LevelPrice a < LevelPrice l"
      using sorted_wrt_take_drop [OF sa] by blast
    show ?thesis using a b c d e f by blast
  qed
  show ?thesis using 1 2 3 4 by blast
qed

theorem GetDepth_top_levels_witness:
  "(0::int) \<le> 1 \<and>
   trees_sorted (run (NewOrderBook ''X'')
      [CallAddOrder (exampleOrder ''a'' Buy 99 5 0), CallAddOrder (exampleOrder ''b'' Buy 100 2 0),
       CallAddOrder (exampleOrder ''c'' Sell 103 1 0)]) \<and>
   levels_keyed (run (NewOrderBook ''X'')
      [CallAddOrder (exampleOrder ''a'' Buy 99 5 0), CallAddOrder (exampleOrder ''b'' Buy 100 2 0),
       CallAddOrder (exampleOrder ''c'' Sell 103 1 0)]) \<and>
   GetDepth (run (NewOrderBook ''X'')
      [CallAddOrder (exampleOrder ''a'' Buy 99 5 0), CallAddOrder (exampleOrder ''b'' Buy 100 2 0),
       CallAddOrder (exampleOrder ''c'' Sell 103 1 0)]) 1
     = Some ([\<lparr>LevelPrice = 100, Orders = [(exampleOrder ''b'' Buy 100 2 0)\<lparr>SequenceNum := 2\<rparr>], Volume = 2\<rparr>],
             [\<lparr>LevelPrice = 103, Orders = [(exampleOrder ''c'' Sell 103 1 0)\<lparr>SequenceNum := 3\<rparr>], Volume = 1\<rparr>]) \<and>
   map LevelPrice (drop 1 (bidLevels (run (NewOrderBook ''X'')
      [CallAddOrder (exampleOrder ''a'' Buy 99 5 0), CallAddOrder (exampleOrder ''b'' Buy 100 2 0),
       CallAddOrder (exampleOrder ''c'' Sell 103 1 0)]))) = [99] \<and>
   GetBestBid (run (NewOrderBook ''X'')
      [CallAddOrder (exampleOrder ''a'' Buy 99 5 0), CallAddOrder (exampleOrder ''b'' Buy 100 2 0),
       CallAddOrder (exampleOrder ''c'' Sell 103 1 0)]) = Some (100, True)"
  using GetDepth_top_levels [of 1 "run (NewOrderBook ''X'')
      [CallAddOrder (exampleOrder ''a'' Buy 99 5 0), CallAddOrder (exampleOrder ''b'' Buy 100 2 0),
       CallAddOrder (exampleOrder ''c'' Sell 103 1 0)]"]
  by (simp add: book_eval trees_sorted_def levels_keyed_def bidLevels_def askLevels_def)

section \<open>The spread\<close>

text \<open>
  C9, as the code has it. For every book whose buy tree and sell tree are both non-empty,
  \<open>GetBestBid\<close> and \<open>GetBestAsk\<close> each return a price with \<open>true\<close>, and \<open>GetSpread\<close>
  returns the price of \<open>GetBestAsk\<close> minus the price of \<open>GetBestBid\<close> (one \<^verbatim>\<open>float64\<close>
  subtraction). For every book with an empty side \<open>GetSpread\<close> returns 0: the result is
  a number in every state, never an absent value.
\<close>

theorem GetSpread_result:
  "(TreeSize (BuyTree ob) \<noteq> 0 \<and> TreeSize (SellTree ob) \<noteq> 0 \<longrightarrow>
      (\<exists>bid ask. GetBestBid ob = Some (bid, True) \<and> GetBestAsk ob = Some (ask, True) \<and>
         GetSpread ob = Some (fsub ask bid))) \<and>
   (TreeSize (BuyTree ob) = 0 \<or> TreeSize (SellTree ob) = 0 \<longrightarrow> GetSpread ob = Some 0)"
  by (auto simp: GetSpread_def GetBestBid_def GetBestAsk_def TreeSize_def Left_def
      split: list.splits)

theorem GetSpread_result_witness:
  "TreeSize (BuyTree (AddOrder (AddOrder (NewOrderBook ''X'') (exampleOrder ''a'' Buy 100 5 0))
      (exampleOrder ''b'' Sell 103 2 0))) \<noteq> 0 \<and>
   TreeSize (SellTree (AddOrder (AddOrder (NewOrderBook ''X'') (exampleOrder ''a'' Buy 100 5 0))
      (exampleOrder ''b'' Sell 103 2 0))) \<noteq> 0 \<and>
   GetSpread (AddOrder (AddOrder (NewOrderBook ''X'') (exampleOrder ''a'' Buy 100 5 0))
      (exampleOrder ''b'' Sell 103 2 0)) = Some 3 \<and>
   TreeSize (SellTree (AddOrder (NewOrderBook ''X'') (exampleOrder ''a'' Buy 100 5 0))) = 0 \<and>
   GetSpread (AddOrder (NewOrderBook ''X'') (exampleOrder ''a'' Buy 100 5 0)) = Some 0"
  using GetSpread_result [of "AddOrder (AddOrder (NewOrderBook ''X'') (exampleOrder ''a'' Buy 100 5 0))
      (exampleOrder ''b'' Sell 103 2 0)"]
    GetSpread_result [of "AddOrder (NewOrderBook ''X'') (exampleOrder ''a'' Buy 100 5 0)"]
  by (simp add: book_eval)

text \<open>
  C9 as stated fails in its last clause: the spread is not left undefined when a side is
  empty. On a book with one bid at 100 and no ask, and on the empty book, \<open>GetSpread\<close>
  returns 0, the same result as on a book whose best bid and best ask are both 100.
\<close>

theorem GetSpread_result_counterexample:
  "GetBestAsk (AddOrder (NewOrderBook ''X'') (exampleOrder ''a'' Buy 100 5 0)) = Some (0, False) \<and>
   GetSpread (AddOrder (NewOrderBook ''X'') (exampleOrder ''a'' Buy 100 5 0)) = Some 0 \<and>
   GetSpread (NewOrderBook ''X'') = Some 0 \<and>
   GetBestBid (AddOrder (AddOrder (NewOrderBook ''X'') (exampleOrder ''a'' Buy 100 5 0))
      (exampleOrder ''b'' Sell 100 2 0)) = Some (100, True) \<and>
   GetBestAsk (AddOrder (AddOrder (NewOrderBook ''X'') (exampleOrder ''a'' Buy 100 5 0))
      (exampleOrder ''b'' Sell 100 2 0)) = Some (100, True) \<and>
   GetSpread (AddOrder (AddOrder (NewOrderBook ''X'') (exampleOrder ''a'' Buy 100 5 0))
      (exampleOrder ''b'' Sell 100 2 0)) = Some 0"
  by (simp add: book_eval)

section \<open>Removing an order whose level is missing\<close>

lemma Size_fmdrop:
  assumes "fmlookup m k = Some v"
  shows "int (fcard (fmdom (fmdrop k m))) = int (fcard (fmdom m)) - 1"
proof -
  have "k |\<in>| fmdom m" using assms by (simp add: fmdomI)
  then have "Suc (fcard (fmdom m |-| {|k|})) = fcard (fmdom m)"
    by (rule fcard_Suc_fminus1)
  then have "int (fcard (fmdom m)) = int (fcard (fmdom m |-| {|k|})) + 1"
    by linarith
  then show ?thesis by simp
qed

text \<open>
  C10. For every book in which \<open>orderID\<close> is in the order index but the tree of that
  order's side has no level at that order's price, \<open>RemoveOrder\<close> returns the indexed
  order and deletes the index entry; both trees, with all their levels and volumes, stay
  as they were, and \<open>Size\<close> decreases by one.
\<close>

theorem RemoveOrder_stale_index:
  assumes "fmlookup (OrderMap ob) orderID = Some order"
      and "Get (getTree ob (Side order)) (Price order) = None"
  shows "RemoveOrder ob orderID = (Some order, ob\<lparr>OrderMap := fmdrop orderID (OrderMap ob)\<rparr>) \<and>
         fmlookup (OrderMap (snd (RemoveOrder ob orderID))) orderID = None \<and>
         BuyTree (snd (RemoveOrder ob orderID)) = BuyTree ob \<and>
         SellTree (snd (RemoveOrder ob orderID)) = SellTree ob \<and>
         Size (snd (RemoveOrder ob orderID)) = Size ob - 1"
  using assms
  by (cases "Side order = Buy")
     (simp_all add: RemoveOrder_def Let_def getTree_def Size_def Size_fmdrop [simplified])

theorem RemoveOrder_stale_index_witness:
  "fmlookup (OrderMap ((NewOrderBook ''X'')\<lparr>OrderMap := fmupd ''a'' (exampleOrder ''a'' Buy 100 5 0) fmempty\<rparr>)) ''a''
     = Some (exampleOrder ''a'' Buy 100 5 0) \<and>
   Get (getTree ((NewOrderBook ''X'')\<lparr>OrderMap := fmupd ''a'' (exampleOrder ''a'' Buy 100 5 0) fmempty\<rparr>)
          (Side (exampleOrder ''a'' Buy 100 5 0))) (Price (exampleOrder ''a'' Buy 100 5 0)) = None \<and>
   RemoveOrder ((NewOrderBook ''X'')\<lparr>OrderMap := fmupd ''a'' (exampleOrder ''a'' Buy 100 5 0) fmempty\<rparr>) ''a''
     = (Some (exampleOrder ''a'' Buy 100 5 0), NewOrderBook ''X'') \<and>
   Size ((NewOrderBook ''X'')\<lparr>OrderMap := fmupd ''a'' (exampleOrder ''a'' Buy 100 5 0) fmempty\<rparr>) = 1 \<and>
   Size (NewOrderBook ''X'') = 0"
  using RemoveOrder_stale_index [of "(NewOrderBook ''X'')\<lparr>OrderMap := fmupd ''a'' (exampleOrder ''a'' Buy 100 5 0) fmempty\<rparr>" "''a''" "exampleOrder ''a'' Buy 100 5 0"]
  by (simp add: book_eval fmdrop_fmupd_same fcard_finsert_if)

end
